theory Spec2Isabelle
  imports Main "HOL-Library.Word"
begin

section \<open>Bytes, C strings and mapped memory\<close>

text \<open>
  A C \<^verbatim>\<open>char\<close> is a byte; \<^typ>\<open>char\<close> is the 8-bit character type of HOL.
  On the platforms ngp builds for, \<^verbatim>\<open>char\<close> is signed: \<open>schar\<close> is the value the
  comparisons \<^verbatim>\<open>c > 0\<close> and \<^verbatim>\<open>c < 0\<close> of the source see.
\<close>

definition NUL :: char where
  "NUL = CHR 0x00"

definition NL :: char where
  "NL = CHR 0x0A"

definition schar :: "char \<Rightarrow> int" where
  "schar c = (if (of_char c :: nat) < 128 then int (of_char c) else int (of_char c) - 256)"

text \<open>The C string held by a buffer: the bytes before its first NUL.\<close>

definition c_str :: "char list \<Rightarrow> char list" where
  "c_str buf = takeWhile (\<lambda>c. c \<noteq> NUL) buf"

text \<open>
  \<^verbatim>\<open>strncpy(dest, src, n)\<close> writes exactly \<open>n\<close> bytes: the bytes of the C string
  \<open>src\<close>, then NUL padding; when the string has \<open>n\<close> bytes or more, no NUL is written.
\<close>

definition strncpy :: "char list \<Rightarrow> nat \<Rightarrow> char list" where
  "strncpy src n = take n (src @ replicate n NUL)"

text \<open>
  The mapped file is a byte list; an access outside of it is a fault of the process.
  \<^verbatim>\<open>strchr(mem + p, c)\<close> walks the bytes from offset \<open>p\<close>: it returns the offset of the first
  \<open>c\<close>, or no offset when it meets a NUL first, or faults when it leaves the mapping.
\<close>

datatype fault = Segfault

fun strchr_from :: "char list \<Rightarrow> char \<Rightarrow> nat \<Rightarrow> fault + nat option" where
  "strchr_from [] c k = Inl Segfault"
| "strchr_from (x # xs) c k =
     (if x = c then Inr (Some k)
      else if x = NUL then Inr None
      else strchr_from xs c (Suc k))"

definition strchr :: "char list \<Rightarrow> nat \<Rightarrow> char \<Rightarrow> fault + nat option" where
  "strchr mem p c = strchr_from (drop p mem) c p"

text \<open>Occurrence of a pattern as a contiguous run of bytes of a text.\<close>

fun occurs :: "char list \<Rightarrow> char list \<Rightarrow> bool" where
  "occurs pat [] = (pat = [])"
| "occurs pat (x # xs) = (take (length pat) (x # xs) = pat \<or> occurs pat xs)"

text \<open>
  \<^verbatim>\<open>strstr(text, pattern)\<close> of the C library, as a predicate: the C string of the pattern
  occurs in the C string of the text. \<open>strstr_wrapper\<close> ignores the size it is given.
\<close>

definition strstr :: "char list \<Rightarrow> char list \<Rightarrow> bool" where
  "strstr text pattern = occurs (c_str pattern) (c_str text)"

definition strstr_wrapper :: "char list \<Rightarrow> char list \<Rightarrow> nat \<Rightarrow> bool" where
  "strstr_wrapper text pattern siz = strstr text pattern"

text \<open>\<^verbatim>\<open>strdup\<close>: a new buffer with the C string and its terminator.\<close>

definition strdup :: "char list \<Rightarrow> char list" where
  "strdup s = c_str s @ [NUL]"

section \<open>The case-sensitive matcher\<close>

text \<open>
  A read of one byte of a buffer; outside the buffer there is nothing to read.
\<close>

definition rd :: "char list \<Rightarrow> nat \<Rightarrow> char option" where
  "rd buf k = (if k < length buf then Some (buf ! k) else None)"

definition strlen :: "char list \<Rightarrow> nat" where
  "strlen s = length (c_str s)"

text \<open>
  pre\_bmh. The loop \<^verbatim>\<open>for (i = 0; i < psize - 1; i++)\<close> fills the global table
  \<^verbatim>\<open>skipt\<close>; \<open>fill_skipt pattern psize n\<close> is the table after the rounds \<open>i < n\<close>, or
  \<open>None\<close> when one of these rounds met a byte with \<^verbatim>\<open>(int) pattern[i] < 0\<close> and left
  for Rabin-Karp. The table is indexed by the byte.
\<close>

primrec fill_skipt :: "char list \<Rightarrow> nat \<Rightarrow> nat \<Rightarrow> (char \<Rightarrow> nat) option" where
  "fill_skipt pattern psize 0 = Some (\<lambda>c. psize)"
| "fill_skipt pattern psize (Suc i) =
     (case fill_skipt pattern psize i of
        None \<Rightarrow> None
      | Some skipt \<Rightarrow>
          if schar (pattern ! i) < 0 then None
          else Some (skipt(pattern ! i := psize - i - 1)))"

text \<open>
  The function \<^verbatim>\<open>mainsearch->parser\<close> points to after \<^verbatim>\<open>mainsearch->parser = bmh;
  pre_bmh(mainsearch->pattern);\<close> in main, with the table and \<^verbatim>\<open>mainsearch->psize\<close>.
\<close>

datatype parser_fn = Bmh | Strstr_wrapper | Rabin_karp

record matcher =
  parser_of :: parser_fn
  skipt :: "char \<Rightarrow> nat"
  psize :: nat

definition pre_bmh :: "char list \<Rightarrow> matcher" where
  "pre_bmh pattern =
     (let n = strlen pattern in
      case fill_skipt pattern n (n - 1) of
        None \<Rightarrow> \<lparr>parser_of = Rabin_karp, skipt = (\<lambda>c. n), psize = n\<rparr>
      | Some t \<Rightarrow> \<lparr>parser_of = (if n = 1 then Strstr_wrapper else Bmh), skipt = t, psize = n\<rparr>)"

text \<open>
  bmh. A run is bounded by a fuel; \<open>None\<close> says that the fuel ran out. A finished run
  gives the offset of the match (\<open>Some i\<close>), or NULL (\<open>None\<close>), or a fault for a read
  outside the memory \<open>text\<close>. The inner loop
  \<^verbatim>\<open>while (text[i + psize - 1] < 0) i += psize;\<close> is \<open>bmh_unicode\<close>.
  \<^verbatim>\<open>memcmp(text + i + 1, pattern + 1, psize - 2)\<close> has a size of type \<^verbatim>\<open>size_t\<close>: with
  \<open>psize < 2\<close> it (or \<^verbatim>\<open>pattern[psize - 1]\<close>) leaves the buffers, a fault here.
\<close>

fun bmh_unicode :: "nat \<Rightarrow> char list \<Rightarrow> nat \<Rightarrow> nat \<Rightarrow> (fault + nat) option" where
  "bmh_unicode 0 text n i = None"
| "bmh_unicode (Suc fuel) text n i =
     (case rd text (i + n - 1) of
        None \<Rightarrow> Some (Inl Segfault)
      | Some c \<Rightarrow> if schar c < 0 then bmh_unicode fuel text n (i + n) else Some (Inr i))"

fun bmh_loop ::
  "nat \<Rightarrow> matcher \<Rightarrow> char list \<Rightarrow> char list \<Rightarrow> nat \<Rightarrow> nat \<Rightarrow> (fault + nat option) option" where
  "bmh_loop 0 m text pattern tsize i = None"
| "bmh_loop (Suc fuel) m text pattern tsize i =
     (if psize m < 2 then Some (Inl Segfault)
      else if int i \<le> int tsize - int (psize m) then
        (case rd text (i + psize m - 1) of
           None \<Rightarrow> Some (Inl Segfault)
         | Some c \<Rightarrow>
             if c = pattern ! (psize m - 1) \<and> rd text i = Some (pattern ! 0)
                \<and> take (psize m - 2) (drop (i + 1) text) = take (psize m - 2) (drop 1 pattern)
             then Some (Inr (Some i))
             else if schar c > 0 then bmh_loop fuel m text pattern tsize (i + skipt m c)
             else (case bmh_unicode fuel text (psize m) i of
                     None \<Rightarrow> None
                   | Some (Inl f) \<Rightarrow> Some (Inl f)
                   | Some (Inr i') \<Rightarrow> bmh_loop fuel m text pattern tsize i'))
      else Some (Inr None))"

definition bmh :: "nat \<Rightarrow> matcher \<Rightarrow> char list \<Rightarrow> char list \<Rightarrow> nat \<Rightarrow> (fault + nat option) option" where
  "bmh fuel m text pattern tsize = bmh_loop fuel m text pattern tsize 0"


section \<open>Copy of a matched line (worker\_thread)\<close>

text \<open>
  \<^verbatim>\<open>line_size = (endline - p + 1) >= 256 ? 256 : (endline - p + 1);\<close>
  \<^verbatim>\<open>tmp_str = malloc(line_size); strncpy(tmp_str, p, line_size);\<close>
  \<open>line_size\<close> takes \<open>endline - p\<close>; \<open>copy_line\<close> takes the memory from \<open>p\<close> on, where
  the worker has just written a NUL at \<open>endline\<close>, and gives the content of the
  allocated buffer.
\<close>

definition line_size :: "nat \<Rightarrow> nat" where
  "line_size n = (if n + 1 \<ge> 256 then 256 else n + 1)"

definition copy_line :: "char list \<Rightarrow> nat \<Rightarrow> char list" where
  "copy_line text n = strncpy (c_str text) (line_size n)"

text \<open>A buffer holds a terminated C string when a NUL lies inside it.\<close>

definition terminated :: "char list \<Rightarrow> bool" where
  "terminated buf = (NUL \<in> set buf)"

section \<open>The file scanner\<close>

text \<open>
  \<^verbatim>\<open>struct filep\<close>: offsets are relative to \<open>start\<close>, the first byte of the mapping.
  \<open>mid\<close> is an offset, \<open>size_filep\<close> the field \<^verbatim>\<open>size\<close>, \<open>midline\<close> an \<^verbatim>\<open>unsigned int\<close>.
\<close>

record filep =
  name :: "char list"
  mid :: nat
  size_filep :: nat
  midline :: "32 word"

text \<open>
  parse\_file, after the file is open and mapped: \<open>mem\<close> is the mapping, \<open>sz\<close> is
  \<^verbatim>\<open>sb.st_size\<close>. An empty file is refused (result \<open>None\<close>).
\<close>

definition parse_file :: "char list \<Rightarrow> char list \<Rightarrow> nat \<Rightarrow> fault + filep option" where
  "parse_file file mem sz =
     (if sz = 0 then Inr None
      else case strchr mem (sz div 2) NL of
        Inl f \<Rightarrow> Inl f
      | Inr None \<Rightarrow> Inr (Some \<lparr>name = strdup file, mid = sz - 1, size_filep = sz, midline = 0\<rparr>)
      | Inr (Some mid_newline) \<Rightarrow>
          Inr (Some \<lparr>name = strdup file, mid = mid_newline + 1, size_filep = sz, midline = 0\<rparr>))"

text \<open>
  \<^verbatim>\<open>struct worker_result\<close> without its link: the copied line and the local line number.
  The list \<^verbatim>\<open>worker_res[tnum]\<close> is the list of these, in the order of the links.
\<close>

type_synonym worker_result = "char list \<times> int"

text \<open>
  The function pointer \<^verbatim>\<open>mainsearch->parser\<close> is a parameter: it receives the memory from
  \<open>p\<close> on and \<open>endline - p\<close>, and says whether the result was non-NULL.
\<close>

type_synonym parser = "char list \<Rightarrow> nat \<Rightarrow> bool"

lemma strchr_from_bounds:
  "strchr_from xs c k = Inr (Some e) \<Longrightarrow> k \<le> e \<and> e < k + length xs"
proof (induction xs arbitrary: k)
  case Nil
  then show ?case by simp
next
  case (Cons x xs)
  show ?case
  proof (cases "x = c \<or> x = NUL")
    case True
    with Cons.prems show ?thesis by (auto split: if_splits)
  next
    case False
    with Cons.prems have "strchr_from xs c (Suc k) = Inr (Some e)" by simp
    from Cons.IH [OF this] show ?thesis by simp
  qed
qed

lemma strchr_bounds:
  "strchr mem p c = Inr (Some e) \<Longrightarrow> p \<le> e \<and> e < length mem"
  unfolding strchr_def by (drule strchr_from_bounds) (auto split: if_splits)

text \<open>
  The loop \<^verbatim>\<open>while (p < end && (endline = strchr(p, '\n')))\<close> of worker\_thread.
  \<open>e\<close> is \<open>end\<close> (an offset that can be \<open>-1\<close>), \<open>acc\<close> the results so far. The loop
  returns the memory (with its newlines overwritten), the results and \<open>line_count\<close>.
\<close>

function worker_loop ::
  "parser \<Rightarrow> char list \<Rightarrow> nat \<Rightarrow> int \<Rightarrow> int \<Rightarrow> worker_result list
    \<Rightarrow> fault + (char list \<times> worker_result list \<times> int)" where
  "worker_loop prs mem p e line_count acc =
     (if int p < e then
        (case strchr mem p NL of
           Inl f \<Rightarrow> Inl f
         | Inr None \<Rightarrow> Inr (mem, acc, line_count)
         | Inr (Some endline) \<Rightarrow>
             (let mem' = mem[endline := NUL];
                  acc' = (if prs (drop p mem') (endline - p)
                          then acc @ [(copy_line (drop p mem') (endline - p), line_count)]
                          else acc)
              in worker_loop prs mem' (endline + 1) e (line_count + 1) acc'))
      else Inr (mem, acc, line_count))"
  by pat_completeness auto
termination
  by (relation "measure (\<lambda>(prs, mem, p, e, line_count, acc). length mem - p)")
     (auto dest: strchr_bounds)

declare worker_loop.simps [simp del]

text \<open>
  One round of worker\_thread on the current file: the range of the half, the loop,
  \<^verbatim>\<open>worker_res[tnum]\<close>, and for the first worker \<^verbatim>\<open>filep.midline = line_count - 1\<close>.
\<close>

definition worker_thread ::
  "parser \<Rightarrow> nat \<Rightarrow> filep \<Rightarrow> char list \<Rightarrow> fault + (char list \<times> worker_result list \<times> filep)" where
  "worker_thread prs tnum fp mem =
     (let start = (if tnum \<noteq> 0 then mid fp else 0);
          e = (if tnum \<noteq> 0 then int (size_filep fp) else int (mid fp) - 1)
      in case worker_loop prs mem start e 1 [] of
           Inl f \<Rightarrow> Inl f
         | Inr (mem', res, line_count) \<Rightarrow>
             Inr (mem', res,
                  if tnum = 0 then fp\<lparr>midline := word_of_int (line_count - 1)\<rparr> else fp))"

text \<open>The bytes of the second half, \<^verbatim>\<open>[filep.mid, filep.start + filep.size)\<close>.\<close>

definition second_half :: "filep \<Rightarrow> char list \<Rightarrow> char list" where
  "second_half fp mem = take (size_filep fp - mid fp) (drop (mid fp) mem)"

section \<open>The result store\<close>

text \<open>
  \<^verbatim>\<open>struct entry\<close>: the text and the \<^verbatim>\<open>unsigned int line\<close>. \<^verbatim>\<open>struct search\<close>: the fields
  of the screen and of the data. The list \<open>entries\<close> is the part of the array that is in
  use, so \<^verbatim>\<open>nbentry\<close> is its length; the allocated capacity is not modelled.
  \<open>father\<close> and \<open>child\<close> are addresses of other search structures.
\<close>

record entry =
  data :: "char list"
  line :: "32 word"

record search =
  index :: int
  cursor :: int
  entries :: "entry list"
  nb_lines :: nat
  status :: bool
  pattern :: "char list"
  father :: "nat option"
  child :: "nat option"

definition nbentry :: "search \<Rightarrow> nat" where
  "nbentry s = length (entries s)"

definition init_searchstruct :: search where
  "init_searchstruct =
     \<lparr>index = 0, cursor = 0, entries = [], nb_lines = 0, status = True,
      pattern = [], father = None, child = None\<rparr>"

text \<open>\<^verbatim>\<open>is_file\<close> on an entry: \<^verbatim>\<open>!entries[index].line\<close>.\<close>

definition is_file_entry :: "entry \<Rightarrow> bool" where
  "is_file_entry e = (line e = 0)"

definition mainsearch_add_file :: "search \<Rightarrow> char list \<Rightarrow> search" where
  "mainsearch_add_file s file = s\<lparr>entries := entries s @ [\<lparr>data = file, line = 0\<rparr>]\<rparr>"

text \<open>The \<^verbatim>\<open>int line_nb\<close> is stored in the \<^verbatim>\<open>unsigned int line\<close>: both are 32-bit words.\<close>

definition mainsearch_add_line :: "search \<Rightarrow> char list \<Rightarrow> 32 word \<Rightarrow> search" where
  "mainsearch_add_line s ln line_nb =
     s\<lparr>entries := entries s @ [\<lparr>data = ln, line = line_nb\<rparr>], nb_lines := nb_lines s + 1\<rparr>"

text \<open>
  One round of save\_thread, once both workers are done: the header when one of the
  lists is not empty, the lines of the first worker, the lines of the second with
  \<^verbatim>\<open>res->index + filep.midline\<close> (an \<^verbatim>\<open>int\<close> plus an \<^verbatim>\<open>unsigned int\<close>: 32-bit addition).
\<close>

definition save_thread ::
  "search \<Rightarrow> filep \<Rightarrow> worker_result list \<Rightarrow> worker_result list \<Rightarrow> search" where
  "save_thread s fp res0 res1 =
     (let s1 = (if res0 \<noteq> [] \<or> res1 \<noteq> [] then mainsearch_add_file s (name fp) else s);
          s2 = fold (\<lambda>(ln, i) t. mainsearch_add_line t ln (word_of_int i)) res0 s1;
          s3 = fold (\<lambda>(ln, i) t. mainsearch_add_line t ln (word_of_int i + midline fp)) res1 s2
      in s3)"

text \<open>
  A file through the pipeline: parse\_file publishes the file, the two workers scan
  their halves, save\_thread merges. The workers run in parallel in the source; here the
  second runs on the memory as the first left it.
\<close>

definition scan_file ::
  "parser \<Rightarrow> search \<Rightarrow> char list \<Rightarrow> char list \<Rightarrow> nat \<Rightarrow> fault + search" where
  "scan_file prs s file mem sz =
     (case parse_file file mem sz of
        Inl f \<Rightarrow> Inl f
      | Inr None \<Rightarrow> Inr s
      | Inr (Some fp) \<Rightarrow>
          (case worker_thread prs 0 fp mem of
             Inl f \<Rightarrow> Inl f
           | Inr (mem0, res0, fp0) \<Rightarrow>
               (case worker_thread prs 1 fp0 mem0 of
                  Inl f \<Rightarrow> Inl f
                | Inr (mem1, res1, fp1) \<Rightarrow> Inr (save_thread s fp1 res0 res1))))"

text \<open>
  The match lines of a store, as pairs of line number and stored text, in order.
\<close>

definition matches :: "search \<Rightarrow> (32 word \<times> char list) list" where
  "matches s = map (\<lambda>e. (line e, data e)) (filter (\<lambda>e. \<not> is_file_entry e) (entries s))"

text \<open>
  The single-threaded scan that the split is compared with: one run of the worker's
  loop over the whole file, from its first byte to its end, lines counted from 1.
\<close>

definition single_scan :: "parser \<Rightarrow> char list \<Rightarrow> nat \<Rightarrow> fault + (32 word \<times> char list) list" where
  "single_scan prs mem sz =
     (case worker_loop prs mem 0 (int sz) 1 [] of
        Inl f \<Rightarrow> Inl f
      | Inr (mem', res, line_count) \<Rightarrow> Inr (map (\<lambda>(ln, i). (word_of_int i, ln)) res))"

text \<open>The result of a computation that can fault, as a list: empty on a fault.\<close>

definition projr_list :: "fault + 'a \<Rightarrow> 'a list" where
  "projr_list r = (case r of Inl f \<Rightarrow> [] | Inr x \<Rightarrow> [x])"

section \<open>Navigation in the result list\<close>

text \<open>
  \<^verbatim>\<open>is_file(index, cursearch)\<close> reads \<^verbatim>\<open>entries[index]\<close>; outside the entries in use the
  read has no defined value (\<open>None\<close>). The functions below work on the \<^verbatim>\<open>index\<close> and
  \<^verbatim>\<open>cursor\<close> of the current search; \<open>LINES\<close> is the height of the terminal. They give
  \<open>None\<close> when they read an entry that is not in use. Drawing is left out.
\<close>

definition is_file :: "int \<Rightarrow> search \<Rightarrow> bool option" where
  "is_file i s =
     (if 0 \<le> i \<and> i < int (nbentry s) then Some (is_file_entry (entries s ! nat i)) else None)"

definition page_up :: "int \<Rightarrow> search \<Rightarrow> search option" where
  "page_up LINES s =
     (let cursor1 = (if index s = 0 then 0 else LINES - 1);
          index1 = index s - LINES;
          index2 = (if index1 < 0 then 0 else index1)
      in case is_file (index2 + cursor1) s of
           None \<Rightarrow> None
         | Some f \<Rightarrow>
             Some (s\<lparr>index := index2,
                     cursor := (if f \<and> index2 \<noteq> 0 then cursor1 - 1 else cursor1)\<rparr>))"

definition page_down :: "int \<Rightarrow> search \<Rightarrow> search option" where
  "page_down LINES s =
     (if nbentry s = 0 then Some s
      else
        let max_index = (if int (nbentry s) mod LINES = 0
                         then int (nbentry s) - LINES
                         else int (nbentry s) - int (nbentry s) mod LINES);
            cursor1 = (if index s = max_index then (int (nbentry s) - 1) mod LINES else 0);
            index1 = index s + LINES;
            index2 = (if index1 > max_index then max_index else index1)
        in case is_file (index2 + cursor1) s of
             None \<Rightarrow> None
           | Some f \<Rightarrow> Some (s\<lparr>index := index2, cursor := (if f then cursor1 + 1 else cursor1)\<rparr>))"

definition cursor_up :: "int \<Rightarrow> search \<Rightarrow> search option" where
  "cursor_up LINES s =
     (if cursor s = 0 then page_up LINES s
      else
        let cursor1 = (if cursor s > 0 then cursor s - 1 else cursor s)
        in case is_file (index s + cursor1) s of
             None \<Rightarrow> None
           | Some f \<Rightarrow>
               (let cursor2 = (if f then cursor1 - 1 else cursor1)
                in if cursor2 < 0 then page_up LINES (s\<lparr>cursor := cursor2\<rparr>)
                   else Some (s\<lparr>cursor := cursor2\<rparr>)))"

definition cursor_down :: "int \<Rightarrow> search \<Rightarrow> search option" where
  "cursor_down LINES s =
     (if cursor s = LINES - 1 then page_down LINES s
      else
        let cursor1 = (if cursor s + index s < int (nbentry s) - 1 then cursor s + 1 else cursor s)
        in case is_file (index s + cursor1) s of
             None \<Rightarrow> None
           | Some f \<Rightarrow>
               (let cursor2 = (if f then cursor1 + 1 else cursor1)
                in if cursor2 > LINES - 1 then page_down LINES (s\<lparr>cursor := cursor2\<rparr>)
                   else Some (s\<lparr>cursor := cursor2\<rparr>)))"

text \<open>
  The entry under the cursor, \<^verbatim>\<open>entries[index + cursor]\<close>: whether it is a header.
\<close>

definition selected_is_file :: "search \<Rightarrow> bool option" where
  "selected_is_file s = is_file (index s + cursor s) s"

text \<open>
  The states of the screen that the four movements keep: the viewport starts at a
  multiple of \<open>LINES\<close> inside the store, and the cursor is on an entry in use, on
  the screen (a screen of one line leaves the cursor one step outside).
\<close>

definition nav_inv :: "int \<Rightarrow> search \<Rightarrow> bool" where
  "nav_inv LINES s \<longleftrightarrow>
     0 \<le> index s \<and> index s < int (nbentry s) \<and> index s mod LINES = 0 \<and>
     0 \<le> index s + cursor s \<and> index s + cursor s < int (nbentry s) \<and>
     ((0 \<le> cursor s \<and> cursor s < LINES) \<or> LINES = 1)"

text \<open>
  find\_file: \<^verbatim>\<open>while (!is_file(index, current)) index--;\<close>. Below index 0 the read leaves
  the array (\<open>None\<close>).
\<close>

function find_file :: "int \<Rightarrow> search \<Rightarrow> int option" where
  "find_file i s =
     (case is_file i s of
        None \<Rightarrow> None
      | Some True \<Rightarrow> Some i
      | Some False \<Rightarrow> find_file (i - 1) s)"
  by pat_completeness auto
termination
  by (relation "measure (\<lambda>(i, s). nat (i + 1))") (auto simp: is_file_def split: if_splits)

declare find_file.simps [simp del]

section \<open>The walker's files, one after the other\<close>

text \<open>
  lookup\_directory hands the eligible files to parse\_file one at a time; each is a
  path, its mapping and its size.
\<close>

fun scan_files ::
  "parser \<Rightarrow> search \<Rightarrow> (char list \<times> char list \<times> nat) list \<Rightarrow> fault + search" where
  "scan_files prs s [] = Inr s"
| "scan_files prs s ((file, mem, sz) # fs) =
     (case scan_file prs s file mem sz of
        Inl f \<Rightarrow> Inl f
      | Inr s' \<Rightarrow> scan_files prs s' fs)"

section \<open>Subsearch\<close>

text \<open>
  The search structures live at addresses; \<^verbatim>\<open>mainsearch\<close> and \<^verbatim>\<open>current\<close> are the two
  global pointers.
\<close>

record ngp =
  heap :: "nat \<Rightarrow> search option"
  mainsearch :: nat
  current :: nat

text \<open>
  The loop of subsearch over the entries of the father. \<open>orphan\<close> is the copied name
  of a file whose header is not added yet (\<^verbatim>\<open>orphan_file\<close> and \<^verbatim>\<open>new_data\<close>); \<open>rx\<close> is
  \<^verbatim>\<open>regexec\<close> with the compiled pattern of the child, on the C string of the entry.
  \<^verbatim>\<open>strlen\<close> and \<^verbatim>\<open>regexec\<close> on a buffer that holds no NUL read past its end.
\<close>

fun subsearch_loop ::
  "(char list \<Rightarrow> bool) \<Rightarrow> entry list \<Rightarrow> search \<Rightarrow> char list option \<Rightarrow> fault + search" where
  "subsearch_loop rx [] c orphan = Inr c"
| "subsearch_loop rx (e # es) c orphan =
     (if \<not> terminated (data e) then Inl Segfault
      else if is_file_entry e then subsearch_loop rx es c (Some (strdup (data e)))
      else if rx (c_str (data e)) then
        (let c1 = (case orphan of
                     Some new_data \<Rightarrow> c\<lparr>entries := entries c @ [\<lparr>data = new_data, line = 0\<rparr>]\<rparr>
                   | None \<Rightarrow> c);
             c2 = c1\<lparr>entries := entries c1 @ [\<lparr>data = strdup (data e), line = line e\<rparr>],
                     nb_lines := nb_lines c1 + 1\<rparr>
         in subsearch_loop rx es c2 None)
      else subsearch_loop rx es c orphan)"

text \<open>
  subsearch. \<open>regcomp_ok\<close> says whether \<^verbatim>\<open>regcomp\<close> accepts a pattern (is\_regex\_valid),
  \<open>regexec\<close> whether a compiled pattern matches a C string (regex). \<open>search\<close> is the text
  typed in the window, \<open>new\<close> the address \<^verbatim>\<open>malloc\<close> returns for the child. The result is
  the new state and the pointer returned, NULL being \<open>None\<close>.
\<close>

definition subsearch ::
  "(char list \<Rightarrow> bool) \<Rightarrow> (char list \<Rightarrow> char list \<Rightarrow> bool) \<Rightarrow> ngp \<Rightarrow> nat \<Rightarrow> nat \<Rightarrow> char list
    \<Rightarrow> fault + (ngp \<times> nat option)" where
  "subsearch regcomp_ok regexec st father_p new search =
     (if c_str search = [] then Inr (st, None)
      else case heap st father_p of
        None \<Rightarrow> Inl Segfault
      | Some fa \<Rightarrow>
          (let child0 = init_searchstruct\<lparr>father := Some father_p, pattern := c_str search\<rparr>;
               heap1 = (heap st)(father_p := Some (fa\<lparr>child := Some new\<rparr>), new := Some child0)
           in if \<not> regcomp_ok (c_str search) then Inr (st\<lparr>heap := heap1\<rparr>, None)
              else case subsearch_loop (regexec (c_str search)) (entries fa) child0 None of
                     Inl f \<Rightarrow> Inl f
                   | Inr c \<Rightarrow>
                       Inr (st\<lparr>heap := heap1(new := Some c), current := new\<rparr>, Some new)))"

section \<open>The keys of the main loop\<close>

text \<open>
  The cases of the \<^verbatim>\<open>switch\<close> in main. The key \<open>/\<close> comes with what the user then types
  and with the address of the next allocation. On \<open>ENTER\<close> the editor runs on the entry
  under the cursor and the file that find\_file gives; the state stays as it is.
\<close>

datatype key =
  KEY_RESIZE | KEY_DOWN | KEY_UP | KEY_PPAGE | KEY_NPAGE
  | Slash "char list" nat | ENTER | QUIT | Other

text \<open>
  The process goes on with a new state, or ends: \<open>Exit n\<close> is \<^verbatim>\<open>exit(n)\<close>, \<open>Crash\<close> a fault.
  The status a parent process sees is the low byte of \<open>n\<close>.
\<close>

datatype outcome = Continue ngp | Exit int | Crash


definition on_current :: "ngp \<Rightarrow> (search \<Rightarrow> search option) \<Rightarrow> outcome" where
  "on_current st f =
     (case heap st (current st) of
        None \<Rightarrow> Crash
      | Some s \<Rightarrow> (case f s of
                     None \<Rightarrow> Crash
                   | Some s' \<Rightarrow> Continue (st\<lparr>heap := (heap st)(current st := Some s')\<rparr>)))"

text \<open>The \<^verbatim>\<open>switch\<close>: one key, in the state \<open>st\<close>, on a terminal of \<open>LINES\<close> lines.\<close>

definition handle_key ::
  "(char list \<Rightarrow> bool) \<Rightarrow> (char list \<Rightarrow> char list \<Rightarrow> bool) \<Rightarrow> int \<Rightarrow> ngp \<Rightarrow> key \<Rightarrow> outcome" where
  "handle_key regcomp_ok regexec LINES st k =
     (case k of
        KEY_RESIZE \<Rightarrow> Continue st
      | KEY_DOWN \<Rightarrow> on_current st (cursor_down LINES)
      | KEY_UP \<Rightarrow> on_current st (cursor_up LINES)
      | KEY_PPAGE \<Rightarrow> on_current st (page_up LINES)
      | KEY_NPAGE \<Rightarrow> on_current st (page_down LINES)
      | Slash search new \<Rightarrow>
          (case subsearch regcomp_ok regexec st (current st) new search of
             Inl f \<Rightarrow> Crash
           | Inr (st', tmp) \<Rightarrow>
               (case tmp of None \<Rightarrow> Continue st' | Some c \<Rightarrow> Continue (st'\<lparr>current := c\<rparr>)))
      | ENTER \<Rightarrow>
          (case heap st (current st) of
             None \<Rightarrow> Crash
           | Some cur \<Rightarrow>
               if nbentry cur = 0 then Continue st
               else (case find_file (cursor cur + index cur) cur of
                       None \<Rightarrow> Crash
                     | Some file_index \<Rightarrow> Continue st))
      | QUIT \<Rightarrow>
          (case heap st (current st) of
             None \<Rightarrow> Crash
           | Some cur \<Rightarrow>
               (case father cur of
                  None \<Rightarrow> Exit (- 1)
                | Some tmp \<Rightarrow>
                    (case heap st tmp of
                       None \<Rightarrow> Crash
                     | Some fa \<Rightarrow>
                         Continue (st\<lparr>heap := (heap st)(current st := None,
                                                        tmp := Some (fa\<lparr>child := None\<rparr>)),
                                    current := tmp\<rparr>))))
      | Other \<Rightarrow> Continue st)"

text \<open>A movement key on a search, and a sequence of them.\<close>

definition is_movement :: "key \<Rightarrow> bool" where
  "is_movement k = (k = KEY_UP \<or> k = KEY_DOWN \<or> k = KEY_PPAGE \<or> k = KEY_NPAGE)"

definition move :: "int \<Rightarrow> key \<Rightarrow> search \<Rightarrow> search option" where
  "move LINES k s =
     (case k of
        KEY_DOWN \<Rightarrow> cursor_down LINES s
      | KEY_UP \<Rightarrow> cursor_up LINES s
      | KEY_PPAGE \<Rightarrow> page_up LINES s
      | KEY_NPAGE \<Rightarrow> page_down LINES s
      | _ \<Rightarrow> Some s)"

fun moves :: "int \<Rightarrow> key list \<Rightarrow> search \<Rightarrow> search option" where
  "moves LINES [] s = Some s"
| "moves LINES (k # ks) s = (case move LINES k s of None \<Rightarrow> None | Some t \<Rightarrow> moves LINES ks t)"


section \<open>The ways the process ends by itself\<close>





section \<open>The configuration file\<close>

definition DQ :: char where
  "DQ = CHR 0x22"

definition SP :: char where
  "SP = CHR 0x20"

text \<open>
  The calls \<^verbatim>\<open>strtok_r(NULL, " ", &start)\<close> of get\_config, until one returns NULL. The first
  argument is one of the pointers \<^verbatim>\<open>specific_files\<close> and \<^verbatim>\<open>extensions\<close>, which are NULL, so
  that the scan goes on where \<^verbatim>\<open>start\<close> points. \<open>strtok_all\<close> walks the buffer from there:
  \<open>cur\<close> is the token being read. It gives the tokens and the bytes as the calls leave
  them, a NUL over the space that ends a token; it faults when the buffer ends with no
  NUL.
\<close>

fun strtok_all :: "char list \<Rightarrow> char list \<Rightarrow> fault + (char list list \<times> char list)" where
  "strtok_all [] cur = Inl Segfault"
| "strtok_all (c # cs) cur =
     (if c = NUL then Inr (if cur = [] then [] else [cur], c # cs)
      else if c = SP then
        (case strtok_all cs [] of
           Inl f \<Rightarrow> Inl f
         | Inr (toks, cs') \<Rightarrow>
             if cur = [] then Inr (toks, c # cs') else Inr (cur # toks, NUL # cs'))
      else
        (case strtok_all cs (cur @ [c]) of
           Inl f \<Rightarrow> Inl f
         | Inr (toks, cs') \<Rightarrow> Inr (toks, c # cs')))"

text \<open>
  \<^verbatim>\<open>start = strchr(configline, '"') + 1; end = strchr(start, '"'); end[0] = 0;\<close>
  gives \<open>start\<close> and the new content of the line. With no quote in the line, \<open>start\<close>
  is the address 1 and the next \<^verbatim>\<open>strchr\<close> faults; with no second quote, the write
  goes through NULL.
\<close>

definition quoted_value :: "char list \<Rightarrow> fault + (nat \<times> char list)" where
  "quoted_value configline =
     (case strchr configline 0 DQ of
        Inl f \<Rightarrow> Inl f
      | Inr None \<Rightarrow> Inl Segfault
      | Inr (Some q) \<Rightarrow>
          (case strchr configline (q + 1) DQ of
             Inl f \<Rightarrow> Inl f
           | Inr None \<Rightarrow> Inl Segfault
           | Inr (Some e) \<Rightarrow> Inr (q + 1, configline[e := NUL])))"

text \<open>
  What get\_config builds: the command of the editor and the two lists, each in the
  order of its links.
\<close>

record config =
  editor_cmd :: "char list option"
  firstspec :: "char list list"
  firstext :: "char list list"

text \<open>
  The tokens of the quoted value of a line, and the line as the calls leave it.
\<close>

definition value_tokens :: "char list \<Rightarrow> fault + (char list list \<times> char list)" where
  "value_tokens configline =
     (case quoted_value configline of
        Inl f \<Rightarrow> Inl f
      | Inr (start, line1) \<Rightarrow>
          (case strtok_all (drop start line1) [] of
             Inl f \<Rightarrow> Inl f
           | Inr (toks, rest) \<Rightarrow> Inr (toks, take start line1 @ rest)))"

text \<open>
  The body of the loop \<^verbatim>\<open>while (fgets(configline, 256, config))\<close> for one line:
  \<open>configline\<close> is the buffer with the line and its NUL, \<open>ptr_env\<close> the name of the
  editor. The three tests are made one after the other on the same buffer.
\<close>

definition config_line :: "char list \<Rightarrow> config \<Rightarrow> char list \<Rightarrow> fault + config" where
  "config_line ptr_env cfg configline =
     (if CHR '';'' \<notin> set (c_str configline) then Inr cfg
      else
        case (if strstr configline ptr_env
              then (case quoted_value configline of
                      Inl f \<Rightarrow> Inl f
                    | Inr (start, line1) \<Rightarrow>
                        Inr (cfg\<lparr>editor_cmd := Some (strdup (drop start line1))\<rparr>, line1))
              else Inr (cfg, configline)) of
          Inl f \<Rightarrow> Inl f
        | Inr (cfg1, line1) \<Rightarrow>
            (case (if strstr line1 ''files''
                   then (case value_tokens line1 of
                           Inl f \<Rightarrow> Inl f
                         | Inr (toks, line2) \<Rightarrow>
                             Inr (cfg1\<lparr>firstspec := firstspec cfg1 @ toks\<rparr>, line2))
                   else Inr (cfg1, line1)) of
               Inl f \<Rightarrow> Inl f
             | Inr (cfg2, line2) \<Rightarrow>
                 (if strstr line2 ''extensions''
                  then (case value_tokens line2 of
                          Inl f \<Rightarrow> Inl f
                        | Inr (toks, line3) \<Rightarrow>
                            Inr (cfg2\<lparr>firstext := firstext cfg2 @ toks\<rparr>))
                  else Inr cfg2)))"

text \<open>
  The space-separated tokens of a value: its fields between spaces, the empty ones
  left out.
\<close>

fun fields :: "char list \<Rightarrow> char list \<Rightarrow> char list list" where
  "fields [] cur = [cur]"
| "fields (c # cs) cur = (if c = SP then cur # fields cs [] else fields cs (cur @ [c]))"

definition tokens :: "char list \<Rightarrow> char list list" where
  "tokens v = filter (\<lambda>t. t \<noteq> []) (fields v [])"

section \<open>Well-formed stores\<close>

text \<open>
  Every match line has a header before it, the nearest one with no header in between;
  every header is followed by a match line.
\<close>

definition well_formed :: "entry list \<Rightarrow> bool" where
  "well_formed es \<longleftrightarrow>
     (\<forall>i\<in>{..<length es}. \<not> is_file_entry (es ! i) \<longrightarrow>
        (\<exists>j\<in>{..<i}. is_file_entry (es ! j) \<and> (\<forall>k\<in>{j<..<i}. \<not> is_file_entry (es ! k))))
     \<and> (\<forall>j\<in>{..<length es}. is_file_entry (es ! j) \<longrightarrow>
          Suc j < length es \<and> \<not> is_file_entry (es ! Suc j))"

text \<open>
  The same, by the ends of the list: a store that is not empty begins with a header and
  ends with a match line, and no header follows a header.
\<close>

definition header_blocks :: "entry list \<Rightarrow> bool" where
  "header_blocks es \<longleftrightarrow>
     (es \<noteq> [] \<longrightarrow> is_file_entry (hd es) \<and> \<not> is_file_entry (last es))
     \<and> (\<forall>i. Suc i < length es \<longrightarrow> \<not> (is_file_entry (es ! i) \<and> is_file_entry (es ! Suc i)))"

text \<open>
  The stores of a run: the store of the main search after the walker's files so far,
  each mapping shorter than \<open>2^31\<close> bytes (the line counters of the workers are of
  type \<^verbatim>\<open>int\<close>), and the store of every child that subsearch builds from a store of
  the run.
\<close>

inductive store_of_run :: "entry list \<Rightarrow> bool" where
  main_store:
    "scan_files prs init_searchstruct files = Inr s \<Longrightarrow>
     \<forall>(file, mem, sz)\<in>set files. length mem < 2 ^ 31 \<Longrightarrow>
     store_of_run (entries s)"
| child_store:
    "store_of_run (entries fa) \<Longrightarrow> heap st father_p = Some fa \<Longrightarrow>
     subsearch regcomp_ok regexec st father_p new search = Inr (st', Some c) \<Longrightarrow>
     heap st' c = Some ch \<Longrightarrow>
     store_of_run (entries ch)"

section \<open>Split of a file between the two workers\<close>

text \<open>
  C1 (split correctness). The claim: the two halves, merged with the line numbers of
  the second increased by the line count of the first, give the matches of a
  single-threaded scan. The file below has three lines, \<open>a\<close>, an empty line and \<open>b\<close>;
  its midpoint byte is the newline of the empty line. The first worker stops before that
  line (\<^verbatim>\<open>end = filep.mid - 1\<close> and \<^verbatim>\<open>p < end\<close>) and counts one line, so the match on
  \<open>b\<close> is stored with line number 2, while the scan of the whole file gives 3.
\<close>

theorem split_scan_empty_line_at_split:
  "map matches (projr_list (scan_file (\<lambda>text n. strstr_wrapper text ''b'' n) init_searchstruct ''a.c''
        [CHR ''a'', NL, NL, CHR ''b'', NL] 5)) = [[(2, [CHR ''b'', NUL])]]
   \<and> single_scan (\<lambda>text n. strstr_wrapper text ''b'' n) [CHR ''a'', NL, NL, CHR ''b'', NL] 5
       = Inr [(3, [CHR ''b'', NUL])]"
  by code_simp

section \<open>Correctness of the case-sensitive matcher\<close>













lemma c_str_no_nul: "NUL \<notin> set s \<Longrightarrow> c_str s = s"
  by (induction s) (auto simp: c_str_def)

lemma c_str_line: "NUL \<notin> set ln \<Longrightarrow> c_str (ln @ NUL # rest) = ln"
  by (auto simp: c_str_def takeWhile_tail)





text \<open>
  On such a line \<open>bmh\<close> need not return at all: when the last byte of the window is a
  NUL, neither branch moves \<open>i\<close>. Here the pattern \<open>ab\<close> occurs at offset 2 of the line.
\<close>

lemma bmh_loops_on_nul:
  "bmh fuel (pre_bmh ''ab'') [CHR ''x'', NUL, CHR ''a'', CHR ''b'', NUL] ''ab'' 4 = None"
proof -
  have m: "psize (pre_bmh ''ab'') = 2"
    by (simp add: pre_bmh_def strlen_def c_str_def NUL_def schar_def)
  have "bmh_loop fuel (pre_bmh ''ab'') [CHR ''x'', NUL, CHR ''a'', CHR ''b'', NUL] ''ab'' 4 0 = None"
  proof (induction fuel)
    case 0
    then show ?case by simp
  next
    case (Suc fuel)
    have "bmh_unicode fuel [CHR ''x'', NUL, CHR ''a'', CHR ''b'', NUL] 2 0 = None \<or>
          bmh_unicode fuel [CHR ''x'', NUL, CHR ''a'', CHR ''b'', NUL] 2 0 = Some (Inr 0)"
      by (cases fuel) (simp_all add: rd_def schar_def NUL_def)
    with Suc show ?case
      by (auto simp: m rd_def schar_def NUL_def)
  qed
  then show ?thesis by (simp add: bmh_def)
qed

text \<open>
  The fault, on the line \<open>x\<close>, 0xC3 and the pattern \<open>ab\<close>: the window ends on the byte
  0xC3, the inner loop moves on by two bytes, past the NUL of the line, and reads after
  the memory. With two more bytes of memory it stops there and \<open>bmh\<close> returns NULL.
\<close>

lemma bmh_reads_past_memory:
  "bmh 9 (pre_bmh ''ab'') [CHR ''x'', CHR 0xC3, NUL] ''ab'' 2 = Some (Inl Segfault)
   \<and> bmh 9 (pre_bmh ''ab'') [CHR ''x'', CHR 0xC3, NUL, CHR ''y'', CHR ''z''] ''ab'' 2 = Some (Inr None)"
  by code_simp

section \<open>Truncation of a stored line\<close>

lemma strncpy_short:
  "length src < n \<Longrightarrow> strncpy src n = src @ replicate (n - length src) NUL"
  by (simp add: strncpy_def)

lemma strncpy_long:
  "n \<le> length src \<Longrightarrow> strncpy src n = take n src"
  by (simp add: strncpy_def)

lemma length_strncpy: "length (strncpy src n) = n"
  by (simp add: strncpy_def)

text \<open>
  What the worker stores for a line with no NUL byte: the line and its terminator when
  the line has at most 255 bytes, and the first 256 bytes of the line, with no
  terminator, when it has more.
\<close>

lemma copy_line_cases:
  assumes "NUL \<notin> set ln"
  shows "copy_line (ln @ NUL # rest) (length ln)
           = (if length ln \<le> 255 then ln @ [NUL] else take 256 ln)"
proof (cases "length ln \<le> 255")
  case True
  then have "strncpy ln (length ln + 1) = ln @ [NUL]" by (simp add: strncpy_short)
  moreover have "line_size (length ln) = length ln + 1" using True by (simp add: line_size_def)
  ultimately show ?thesis using True by (simp add: copy_line_def c_str_line assms)
next
  case False
  then have "strncpy ln 256 = take 256 ln" by (simp add: strncpy_long)
  moreover have "line_size (length ln) = 256" using False by (simp add: line_size_def)
  ultimately show ?thesis using False by (simp add: copy_line_def c_str_line assms)
qed

text \<open>
  C3 (truncation). The claim: a matched line of more than 255 bytes is stored as its
  first 255 bytes and a NUL. A file with one line of 256 bytes \<open>a\<close>, searched for \<open>a\<close>:
  the stored buffer holds the 256 bytes of the line and no NUL.
\<close>

theorem long_line_stored_unterminated:
  "map matches (projr_list (scan_file (\<lambda>text n. strstr_wrapper text ''a'' n) init_searchstruct ''f''
        (replicate 256 (CHR ''a'') @ [NL]) 257)) = [[(1, replicate 256 (CHR ''a''))]]
   \<and> length (replicate 256 (CHR ''a'')) = 256
   \<and> terminated (replicate 256 (CHR ''a'')) = False"
  by code_simp

section \<open>What a file adds to the store\<close>

lemma worker_loop_results:
  "worker_loop prs mem p e lc acc = Inr (mem', res, lc') \<Longrightarrow>
   length mem' = length mem \<and> lc \<le> lc' \<and> lc' - lc \<le> int (length mem - p) \<and>
   (\<exists>new. res = acc @ new \<and> (\<forall>(ln, i)\<in>set new. lc \<le> i \<and> i < lc'))"
proof (induction prs mem p e lc acc rule: worker_loop.induct)
  case (1 prs mem p e line_count acc)
  show ?case
  proof (cases "int p < e")
    case False
    with "1.prems" show ?thesis by (simp add: worker_loop.simps)
  next
    case lt: True
    show ?thesis
    proof (cases "strchr mem p NL")
      case (Inl f)
      with lt "1.prems" show ?thesis by (simp add: worker_loop.simps)
    next
      case (Inr r)
      show ?thesis
      proof (cases r)
        case None
        with lt Inr "1.prems" show ?thesis by (simp add: worker_loop.simps)
      next
        case (Some endline)
        define mem1 where "mem1 = mem[endline := NUL]"
        define acc1 where "acc1 = (if prs (drop p mem1) (endline - p)
                          then acc @ [(copy_line (drop p mem1) (endline - p), line_count)]
                          else acc)"
        have step: "worker_loop prs mem p e line_count acc
            = worker_loop prs mem1 (endline + 1) e (line_count + 1) acc1"
          using lt Inr Some by (subst worker_loop.simps) (simp add: mem1_def acc1_def Let_def)
        with "1.prems" have run: "worker_loop prs mem1 (endline + 1) e (line_count + 1) acc1 = Inr (mem', res, lc')"
          by simp
        from "1.IH" [OF lt Inr Some mem1_def acc1_def run]
        have ih: "length mem' = length mem1" "line_count + 1 \<le> lc'"
          "lc' - (line_count + 1) \<le> int (length mem1 - (endline + 1))"
          "\<exists>new. res = acc1 @ new \<and> (\<forall>(ln, i)\<in>set new. line_count + 1 \<le> i \<and> i < lc')"
          by simp_all
        from strchr_bounds Inr Some have b: "p \<le> endline" "endline < length mem" by blast+
        from ih(4) obtain new where new: "res = acc1 @ new" "\<forall>(ln, i)\<in>set new. line_count + 1 \<le> i \<and> i < lc'"
          by blast
        have "\<exists>new'. res = acc @ new' \<and> (\<forall>(ln, i)\<in>set new'. line_count \<le> i \<and> i < lc')"
        proof (cases "prs (drop p mem1) (endline - p)")
          case True
          then have "res = acc @ ((copy_line (drop p mem1) (endline - p), line_count) # new)"
            using new(1) by (simp add: acc1_def)
          moreover have "\<forall>(ln, i)\<in>set ((copy_line (drop p mem1) (endline - p), line_count) # new).
               line_count \<le> i \<and> i < lc'"
            using new(2) ih(2) by auto
          ultimately show ?thesis by blast
        next
          case False
          then have "res = acc @ new" using new(1) by (simp add: acc1_def)
          moreover have "\<forall>(ln, i)\<in>set new. line_count \<le> i \<and> i < lc'" using new(2) by auto
          ultimately show ?thesis by blast
        qed
        moreover have "length mem' = length mem" using ih(1) by (simp add: mem1_def)
        moreover have "line_count \<le> lc'" using ih(2) by simp
        moreover have "lc' - line_count \<le> int (length mem - p)"
          using ih(3) b by (simp add: mem1_def)
        ultimately show ?thesis by blast
      qed
    qed
  qed
qed

lemma line_number_nonzero:
  "0 < k \<Longrightarrow> k < 2 ^ 32 \<Longrightarrow> (word_of_int k :: 32 word) \<noteq> 0"
proof
  assume k: "0 < k" "k < 2 ^ 32" and "(word_of_int k :: 32 word) = 0"
  then have "(2::int) ^ 32 dvd k" by (simp add: word_of_int_eq_0_iff)
  with k(1) have "(2::int) ^ 32 \<le> k" using zdvd_imp_le by blast
  with k(2) show False by simp
qed

lemma fold_add_line:
  "entries (fold (\<lambda>(ln, i) t. mainsearch_add_line t ln (w i)) res s)
     = entries s @ map (\<lambda>(ln, i). \<lparr>data = ln, line = w i\<rparr>) res"
  by (induction res arbitrary: s) (auto simp: mainsearch_add_line_def)

lemma save_thread_entries:
  "entries (save_thread s fp res0 res1) =
     entries s @ (if res0 \<noteq> [] \<or> res1 \<noteq> [] then [\<lparr>data = name fp, line = 0\<rparr>] else [])
       @ map (\<lambda>(ln, i). \<lparr>data = ln, line = word_of_int i\<rparr>) res0
       @ map (\<lambda>(ln, i). \<lparr>data = ln, line = word_of_int i + midline fp\<rparr>) res1"
  by (simp add: save_thread_def Let_def fold_add_line mainsearch_add_file_def)

lemma worker_thread_results:
  assumes "worker_thread prs tnum fp mem = Inr (mem', res, fp')"
  shows "length mem' = length mem"
    and "\<exists>lc. 1 \<le> lc \<and> lc - 1 \<le> int (length mem) \<and> (\<forall>(ln, i)\<in>set res. 1 \<le> i \<and> i < lc)
           \<and> fp' = (if tnum = 0 then fp\<lparr>midline := word_of_int (lc - 1)\<rparr> else fp)"
proof -
  let ?start = "if tnum \<noteq> 0 then mid fp else 0"
  let ?e = "if tnum \<noteq> 0 then int (size_filep fp) else int (mid fp) - 1"
  from assms obtain lc where
    run: "worker_loop prs mem ?start ?e 1 [] = Inr (mem', res, lc)"
    and fp': "fp' = (if tnum = 0 then fp\<lparr>midline := word_of_int (lc - 1)\<rparr> else fp)"
    by (auto simp: worker_thread_def Let_def split: sum.splits)
  from worker_loop_results [OF run]
  have r: "length mem' = length mem" "1 \<le> lc" "lc - 1 \<le> int (length mem - ?start)"
    "\<forall>(ln, i)\<in>set res. 1 \<le> i \<and> i < lc" by auto
  show "length mem' = length mem" by (rule r(1))
  have "lc - 1 \<le> int (length mem)" using r(3) by linarith
  with r(2,4) fp' show "\<exists>lc. 1 \<le> lc \<and> lc - 1 \<le> int (length mem) \<and> (\<forall>(ln, i)\<in>set res. 1 \<le> i \<and> i < lc)
           \<and> fp' = (if tnum = 0 then fp\<lparr>midline := word_of_int (lc - 1)\<rparr> else fp)" by blast
qed

lemma scan_file_appends:
  assumes "scan_file prs s file mem sz = Inr s'" "length mem < 2 ^ 31"
  shows "\<exists>lines. entries s' = entries s @ (if lines = [] then [] else \<lparr>data = strdup file, line = 0\<rparr> # lines)
           \<and> (\<forall>e\<in>set lines. line e \<noteq> 0)"
proof (cases "parse_file file mem sz")
  case (Inl f)
  with assms(1) show ?thesis by (simp add: scan_file_def)
next
  case (Inr r)
  show ?thesis
  proof (cases r)
    case None
    with Inr assms(1) have "s' = s" by (simp add: scan_file_def)
    then have "entries s' = entries s @ (if [] = ([] :: entry list) then [] else \<lparr>data = strdup file, line = 0\<rparr> # [])
        \<and> (\<forall>e\<in>set ([] :: entry list). line e \<noteq> 0)" by simp
    then show ?thesis by blast
  next
    case (Some fp)
    have nm: "name fp = strdup file"
      using Inr Some by (auto simp: parse_file_def split: if_splits sum.splits option.splits)
    from assms(1) Inr Some obtain mem0 res0 fp0 mem1 res1 fp1 where
      w0: "worker_thread prs 0 fp mem = Inr (mem0, res0, fp0)"
      and w1: "worker_thread prs 1 fp0 mem0 = Inr (mem1, res1, fp1)"
      and s': "s' = save_thread s fp1 res0 res1"
      by (auto simp: scan_file_def split: sum.splits)
    from worker_thread_results [OF w0] obtain lc0 where
      l0: "length mem0 = length mem" "1 \<le> lc0" "lc0 - 1 \<le> int (length mem)"
        "\<forall>(ln, i)\<in>set res0. 1 \<le> i \<and> i < lc0" "fp0 = fp\<lparr>midline := word_of_int (lc0 - 1)\<rparr>"
      by auto
    from worker_thread_results [OF w1] obtain lc1 where
      l1: "1 \<le> lc1" "lc1 - 1 \<le> int (length mem0)"
        "\<forall>(ln, i)\<in>set res1. 1 \<le> i \<and> i < lc1" "fp1 = fp0"
      by auto
    have fp1: "name fp1 = strdup file" "midline fp1 = word_of_int (lc0 - 1)"
      using l1(4) l0(5) nm by simp_all
    let ?l0 = "map (\<lambda>(ln, i). \<lparr>data = ln, line = word_of_int i\<rparr>) res0"
    let ?l1 = "map (\<lambda>(ln, i). \<lparr>data = ln, line = word_of_int i + midline fp1\<rparr>) res1"
    let ?lines = "?l0 @ ?l1"
    have bound: "int (length mem) < 2 ^ 31" using assms(2) by simp
    have nz0: "\<forall>e\<in>set ?l0. line e \<noteq> 0"
    proof
      fix e assume "e \<in> set ?l0"
      then obtain ln i where e: "e = \<lparr>data = ln, line = word_of_int i\<rparr>" "(ln, i) \<in> set res0" by auto
      with l0(4) have "1 \<le> i" "i < lc0" by auto
      with l0(3) bound have "0 < i" "i < 2 ^ 32" by simp_all
      then show "line e \<noteq> 0" using e(1) line_number_nonzero by simp
    qed
    have nz1: "\<forall>e\<in>set ?l1. line e \<noteq> 0"
    proof
      fix e assume "e \<in> set ?l1"
      then obtain ln i where e: "e = \<lparr>data = ln, line = word_of_int i + midline fp1\<rparr>" "(ln, i) \<in> set res1" by auto
      with l1(3) have "1 \<le> i" "i < lc1" by auto
      with l1(2) l0(1,2,3) bound have "0 < i + (lc0 - 1)" "i + (lc0 - 1) < 2 ^ 32" by simp_all
      then have "(word_of_int (i + (lc0 - 1)) :: 32 word) \<noteq> 0" by (rule line_number_nonzero)
      then show "line e \<noteq> 0" using e(1) fp1(2) by simp
    qed
    have "entries s' = entries s @ (if ?lines = [] then [] else \<lparr>data = strdup file, line = 0\<rparr> # ?lines)"
      unfolding s' save_thread_entries fp1(1) by simp
    moreover have "\<forall>e\<in>set ?lines. line e \<noteq> 0" using nz0 nz1 by auto
    ultimately show ?thesis by blast
  qed
qed

section \<open>Well-formedness of the stores\<close>

lemma header_blocks_well_formed:
  assumes "header_blocks es"
  shows "well_formed es"
proof -
  have adj: "\<And>i. Suc i < length es \<Longrightarrow> is_file_entry (es ! i) \<Longrightarrow> \<not> is_file_entry (es ! Suc i)"
    using assms by (auto simp: header_blocks_def)
  have first: "es \<noteq> [] \<Longrightarrow> is_file_entry (es ! 0)"
    using assms by (auto simp: header_blocks_def hd_conv_nth)
  have final: "es \<noteq> [] \<Longrightarrow> \<not> is_file_entry (es ! (length es - 1))"
    using assms by (auto simp: header_blocks_def last_conv_nth)
  have lines: "\<exists>j\<in>{..<i}. is_file_entry (es ! j) \<and> (\<forall>k\<in>{j<..<i}. \<not> is_file_entry (es ! k))"
    if i: "i < length es" "\<not> is_file_entry (es ! i)" for i
  proof -
    let ?S = "{j. j < i \<and> is_file_entry (es ! j)}"
    have ne: "es \<noteq> []" using i(1) by auto
    have "i \<noteq> 0" using first [OF ne] i(2) by (cases "i = 0") auto
    then have "0 \<in> ?S" using first [OF ne] by simp
    moreover have fin: "finite ?S" by simp
    ultimately have mx: "Max ?S \<in> ?S" using Max_in by blast
    have "\<forall>k\<in>{Max ?S<..<i}. \<not> is_file_entry (es ! k)"
    proof
      fix k assume k: "k \<in> {Max ?S<..<i}"
      show "\<not> is_file_entry (es ! k)"
      proof
        assume "is_file_entry (es ! k)"
        with k have "k \<in> ?S" by simp
        then have "k \<le> Max ?S" using fin by (rule Max_ge [rotated])
        with k show False by simp
      qed
    qed
    with mx show ?thesis by blast
  qed
  have headers: "Suc j < length es \<and> \<not> is_file_entry (es ! Suc j)"
    if j: "j < length es" "is_file_entry (es ! j)" for j
  proof -
    have "es \<noteq> []" using j(1) by auto
    from final [OF this] j(2) have "j \<noteq> length es - 1" by auto
    with j(1) have "Suc j < length es" by linarith
    with adj j(2) show ?thesis by blast
  qed
  show ?thesis unfolding well_formed_def using lines headers by blast
qed

lemma well_formed_header_blocks:
  assumes "well_formed es"
  shows "header_blocks es"
proof -
  from assms have
    l: "\<And>i. i < length es \<Longrightarrow> \<not> is_file_entry (es ! i) \<Longrightarrow> \<exists>j<i. is_file_entry (es ! j)"
    and h: "\<And>j. j < length es \<Longrightarrow> is_file_entry (es ! j) \<Longrightarrow> Suc j < length es \<and> \<not> is_file_entry (es ! Suc j)"
    unfolding well_formed_def by blast+
  have "is_file_entry (hd es)" if "es \<noteq> []"
  proof (rule ccontr)
    assume "\<not> is_file_entry (hd es)"
    with that l [of 0] show False by (simp add: hd_conv_nth)
  qed
  moreover have "\<not> is_file_entry (last es)" if "es \<noteq> []"
  proof
    assume "is_file_entry (last es)"
    with that h [of "length es - 1"] show False by (simp add: last_conv_nth)
  qed
  moreover have "\<forall>i. Suc i < length es \<longrightarrow> \<not> (is_file_entry (es ! i) \<and> is_file_entry (es ! Suc i))"
    using h by (meson Suc_lessD)
  ultimately show ?thesis unfolding header_blocks_def by blast
qed

lemma header_blocks_append_file:
  assumes "header_blocks es" "is_file_entry hd_e" "lines \<noteq> []" "\<forall>e\<in>set lines. \<not> is_file_entry e"
  shows "header_blocks (es @ hd_e # lines)"
proof -
  let ?xs = "es @ hd_e # lines"
  have h: "is_file_entry (hd ?xs)"
    using assms(1,2) by (cases es) (auto simp: header_blocks_def)
  have l: "\<not> is_file_entry (last ?xs)" using assms(3,4) by simp
  have "\<not> (is_file_entry (?xs ! i) \<and> is_file_entry (?xs ! Suc i))" if i: "Suc i < length ?xs" for i
  proof -
    consider "Suc i < length es" | "Suc i = length es" | "i = length es" | "i > length es" by linarith
    then show ?thesis
    proof cases
      case 1
      then show ?thesis using assms(1) by (auto simp: header_blocks_def nth_append)
    next
      case 2
      then have ne: "es \<noteq> []" by auto
      from 2 have "i = length es - 1" "i < length es" by simp_all
      then have "?xs ! i = last es" using ne by (simp add: nth_append last_conv_nth)
      then show ?thesis using assms(1) ne by (auto simp: header_blocks_def)
    next
      case 3
      then have "?xs ! Suc i = hd lines" using assms(3) by (cases lines) (auto simp: nth_append)
      then show ?thesis using assms(3,4) by auto
    next
      case 4
      then have "?xs ! i = lines ! (i - length es - 1)" by (auto simp: nth_append nth_Cons')
      moreover have "i - length es - 1 < length lines" using i 4 by simp
      ultimately show ?thesis using assms(4) by auto
    qed
  qed
  with h l show ?thesis unfolding header_blocks_def by blast
qed

lemma header_blocks_append_line:
  assumes "header_blocks es" "es \<noteq> []" "\<not> is_file_entry e"
  shows "header_blocks (es @ [e])"
proof -
  let ?xs = "es @ [e]"
  have "\<not> (is_file_entry (?xs ! i) \<and> is_file_entry (?xs ! Suc i))" if i: "Suc i < length ?xs" for i
  proof (cases "Suc i < length es")
    case True
    then show ?thesis using assms(1) by (auto simp: header_blocks_def nth_append)
  next
    case False
    with i have "?xs ! Suc i = e" by (auto simp: nth_append)
    with assms(3) show ?thesis by simp
  qed
  then show ?thesis using assms unfolding header_blocks_def by auto
qed

lemma scan_file_header_blocks:
  assumes "scan_file prs s file mem sz = Inr s'" "length mem < 2 ^ 31" "header_blocks (entries s)"
  shows "header_blocks (entries s')"
proof -
  from scan_file_appends [OF assms(1,2)] obtain lines where
    l: "entries s' = entries s @ (if lines = [] then [] else \<lparr>data = strdup file, line = 0\<rparr> # lines)"
       "\<forall>e\<in>set lines. line e \<noteq> 0" by blast
  show ?thesis
  proof (cases "lines = []")
    case True
    with l(1) assms(3) show ?thesis by simp
  next
    case False
    have "header_blocks (entries s @ \<lparr>data = strdup file, line = 0\<rparr> # lines)"
      by (rule header_blocks_append_file [OF assms(3) _ False]) (use l(2) in \<open>auto simp: is_file_entry_def\<close>)
    with False l(1) show ?thesis by simp
  qed
qed

lemma scan_files_header_blocks:
  "scan_files prs s files = Inr s' \<Longrightarrow> \<forall>(file, mem, sz)\<in>set files. length mem < 2 ^ 31 \<Longrightarrow>
   header_blocks (entries s) \<Longrightarrow> header_blocks (entries s')"
proof (induction files arbitrary: s)
  case Nil
  then show ?case by simp
next
  case (Cons x files)
  obtain f mem sz where x: "x = (f, mem, sz)" by (cases x) auto
  from Cons.prems(1) x obtain s1 where
    s1: "scan_file prs s f mem sz = Inr s1" "scan_files prs s1 files = Inr s'"
    by (auto split: sum.splits)
  have "length mem < 2 ^ 31" using Cons.prems(2) x by simp
  from scan_file_header_blocks [OF s1(1) this Cons.prems(3)]
  have "header_blocks (entries s1)" .
  moreover have "\<forall>(file, mem, sz)\<in>set files. length mem < 2 ^ 31" using Cons.prems(2) by simp
  ultimately show ?case using Cons.IH s1(2) by blast
qed

lemma subsearch_loop_header_blocks:
  "subsearch_loop rx es c orphan = Inr c' \<Longrightarrow> header_blocks (entries c) \<Longrightarrow>
   (entries c = [] \<and> orphan = None \<longrightarrow> es = [] \<or> is_file_entry (hd es)) \<Longrightarrow>
   header_blocks (entries c')"
proof (induction es arbitrary: c orphan)
  case Nil
  then show ?case by simp
next
  case (Cons e es)
  from Cons.prems(1) have tm: "terminated (data e)" by (auto split: if_splits)
  show ?case
  proof (cases "is_file_entry e")
    case True
    with Cons.prems(1) tm have "subsearch_loop rx es c (Some (strdup (data e))) = Inr c'" by simp
    from Cons.IH [OF this Cons.prems(2)] show ?thesis by simp
  next
    case line: False
    show ?thesis
    proof (cases "rx (c_str (data e))")
      case False
      with Cons.prems(1) tm line have run: "subsearch_loop rx es c orphan = Inr c'" by simp
      have "\<not> (entries c = [] \<and> orphan = None)" using Cons.prems(3) line by auto
      with Cons.IH [OF run Cons.prems(2)] show ?thesis by blast
    next
      case True
      define c1 where "c1 = (case orphan of
                     Some new_data \<Rightarrow> c\<lparr>entries := entries c @ [\<lparr>data = new_data, line = 0\<rparr>]\<rparr>
                   | None \<Rightarrow> c)"
      define c2 where "c2 = c1\<lparr>entries := entries c1 @ [\<lparr>data = strdup (data e), line = line e\<rparr>],
                     nb_lines := nb_lines c1 + 1\<rparr>"
      have run: "subsearch_loop rx es c2 None = Inr c'"
        using Cons.prems(1) tm line True by (simp add: c1_def c2_def Let_def)
      have nf: "\<not> is_file_entry \<lparr>data = strdup (data e), line = line e\<rparr>"
        using line by (simp add: is_file_entry_def)
      have "header_blocks (entries c2)"
      proof (cases orphan)
        case None
        then have "entries c \<noteq> []" using Cons.prems(3) line by auto
        from header_blocks_append_line [OF Cons.prems(2) this nf]
        show ?thesis using None by (simp add: c2_def c1_def)
      next
        case (Some new_data)
        have "header_blocks (entries c @ \<lparr>data = new_data, line = 0\<rparr> # [\<lparr>data = strdup (data e), line = line e\<rparr>])"
          by (rule header_blocks_append_file [OF Cons.prems(2)]) (use nf in \<open>auto simp: is_file_entry_def\<close>)
        then show ?thesis using Some by (simp add: c2_def c1_def)
      qed
      moreover have "entries c2 \<noteq> []" by (simp add: c2_def)
      ultimately show ?thesis using Cons.IH [OF run] by blast
    qed
  qed
qed

lemma subsearch_loop_matches:
  "subsearch_loop rx es c orphan = Inr c' \<Longrightarrow>
   matches c' = matches c @ map (\<lambda>e. (line e, strdup (data e)))
                  (filter (\<lambda>e. \<not> is_file_entry e \<and> rx (c_str (data e))) es)"
proof (induction es arbitrary: c orphan)
  case Nil
  then show ?case by simp
next
  case (Cons e es)
  from Cons.prems(1) have tm: "terminated (data e)" by (auto split: if_splits)
  show ?case
  proof (cases "is_file_entry e")
    case True
    with Cons.prems(1) tm have "subsearch_loop rx es c (Some (strdup (data e))) = Inr c'" by simp
    from Cons.IH [OF this] True show ?thesis by simp
  next
    case line: False
    show ?thesis
    proof (cases "rx (c_str (data e))")
      case False
      with Cons.prems(1) tm line have run: "subsearch_loop rx es c orphan = Inr c'" by simp
      from Cons.IH [OF run] line False show ?thesis by simp
    next
      case True
      define c1 where "c1 = (case orphan of
                     Some new_data \<Rightarrow> c\<lparr>entries := entries c @ [\<lparr>data = new_data, line = 0\<rparr>]\<rparr>
                   | None \<Rightarrow> c)"
      define c2 where "c2 = c1\<lparr>entries := entries c1 @ [\<lparr>data = strdup (data e), line = line e\<rparr>],
                     nb_lines := nb_lines c1 + 1\<rparr>"
      have run: "subsearch_loop rx es c2 None = Inr c'"
        using Cons.prems(1) tm line True by (simp add: c1_def c2_def Let_def)
      have "matches c1 = matches c"
        by (cases orphan) (simp_all add: c1_def matches_def is_file_entry_def)
      then have "matches c2 = matches c @ [(line e, strdup (data e))]"
        using line by (simp add: c2_def matches_def is_file_entry_def)
      with Cons.IH [OF run] line True show ?thesis by simp
    qed
  qed
qed

lemma subsearch_child:
  assumes "subsearch regcomp_ok regexec st father_p new search = Inr (st', Some c)"
    and "heap st father_p = Some fa"
  shows "\<exists>ch child0. heap st' c = Some ch \<and> entries child0 = [] \<and>
           subsearch_loop (regexec (c_str search)) (entries fa) child0 None = Inr ch"
proof -
  let ?child0 = "init_searchstruct\<lparr>father := Some father_p, pattern := c_str search\<rparr>"
  from assms obtain ch where
    "subsearch_loop (regexec (c_str search)) (entries fa) ?child0 None = Inr ch"
    "c = new" "heap st' new = Some ch"
    by (auto simp: subsearch_def Let_def split: if_splits sum.splits)
  moreover have "entries ?child0 = []" by (simp add: init_searchstruct_def)
  ultimately show ?thesis by blast
qed

lemma store_of_run_header_blocks: "store_of_run es \<Longrightarrow> header_blocks es"
proof (induction rule: store_of_run.induct)
  case (main_store prs files s)
  have "header_blocks (entries init_searchstruct)"
    by (simp add: header_blocks_def init_searchstruct_def)
  with scan_files_header_blocks [OF main_store(1,2)] show ?case by blast
next
  case (child_store fa st father_p regcomp_ok regexec new search st' c ch)
  from subsearch_child [OF child_store(3,2)] child_store(4) obtain child0 where
    c0: "entries child0 = []" "subsearch_loop (regexec (c_str search)) (entries fa) child0 None = Inr ch"
    by auto
  have "header_blocks (entries child0)" using c0(1) by (simp add: header_blocks_def)
  moreover have "entries child0 = [] \<and> (None :: char list option) = None \<longrightarrow>
      entries fa = [] \<or> is_file_entry (hd (entries fa))"
    using child_store.IH by (auto simp: header_blocks_def)
  ultimately show ?case using subsearch_loop_header_blocks [OF c0(2)] by blast
qed

lemma scan_file_headers:
  assumes "scan_file prs s0 f mem sz = Inr s1" "length mem < 2 ^ 31"
  shows "filter is_file_entry (entries s1) =
           filter is_file_entry (entries s0)
             @ (if matches s1 = matches s0 then [] else [\<lparr>data = strdup f, line = 0\<rparr>])"
proof -
  from scan_file_appends [OF assms] obtain lines where
    l: "entries s1 = entries s0 @ (if lines = [] then [] else \<lparr>data = strdup f, line = 0\<rparr> # lines)"
       "\<forall>e\<in>set lines. line e \<noteq> 0" by blast
  have nf: "filter is_file_entry lines = []" "filter (\<lambda>e. \<not> is_file_entry e) lines = lines"
    using l(2) by (auto simp: is_file_entry_def filter_empty_conv filter_id_conv)
  show ?thesis
  proof (cases "lines = []")
    case True
    with l(1) show ?thesis by (simp add: matches_def)
  next
    case False
    then have "matches s1 = matches s0 @ map (\<lambda>e. (line e, data e)) lines"
      using l(1) nf(2) by (simp add: matches_def is_file_entry_def)
    with False have "matches s1 \<noteq> matches s0" by simp
    then show ?thesis using l(1) False nf(1) by (simp add: is_file_entry_def)
  qed
qed

text \<open>
  C2 (store well-formedness). Every store of a run, the main store after any number of
  files and every child store of a subsearch, is well formed: each match line has a
  nearest header before it and each header is followed by a match line. A file adds a
  header exactly when it adds match lines. The mappings are shorter than \<open>2^31\<close> bytes,
  so that no line counter of type \<^verbatim>\<open>int\<close> overflows.
\<close>

theorem stores_well_formed:
  "(store_of_run es \<longrightarrow> well_formed es)
   \<and> (scan_file prs s0 f mem sz = Inr s1 \<longrightarrow> length mem < 2 ^ 31 \<longrightarrow>
        filter is_file_entry (entries s1) =
          filter is_file_entry (entries s0)
            @ (if matches s1 = matches s0 then [] else [\<lparr>data = strdup f, line = 0\<rparr>]))"
  using store_of_run_header_blocks header_blocks_well_formed scan_file_headers by blast

text \<open>
  The file of three lines \<open>hello\<close>, \<open>world\<close>, \<open>hello world\<close>, searched for \<open>hello\<close>:
  the store is the header and the lines 1 and 3.
\<close>

lemma s1_store:
  "scan_files (\<lambda>text n. strstr_wrapper text ''hello'' n) init_searchstruct
     [(''a.c'', ''hello'' @ [NL] @ ''world'' @ [NL] @ ''hello world'' @ [NL], 24)]
   = Inr (init_searchstruct
        \<lparr>entries := [\<lparr>data = ''a.c'' @ [NUL], line = 0\<rparr>,
                     \<lparr>data = ''hello'' @ [NUL], line = 1\<rparr>,
                     \<lparr>data = ''hello world'' @ [NUL], line = 3\<rparr>],
         nb_lines := 2\<rparr>)"
  by code_simp

theorem stores_well_formed_witness:
  "well_formed [\<lparr>data = ''a.c'' @ [NUL], line = 0\<rparr>,
                \<lparr>data = ''hello'' @ [NUL], line = 1\<rparr>,
                \<lparr>data = ''hello world'' @ [NUL], line = 3\<rparr>]
   \<and> filter is_file_entry [\<lparr>data = ''a.c'' @ [NUL], line = 0\<rparr>,
                \<lparr>data = ''hello'' @ [NUL], line = 1\<rparr>,
                \<lparr>data = ''hello world'' @ [NUL], line = 3\<rparr>] = [\<lparr>data = ''a.c'' @ [NUL], line = 0\<rparr>]"
proof -
  let ?prs = "\<lambda>text n. strstr_wrapper text ''hello'' n"
  let ?mem = "''hello'' @ [NL] @ ''world'' @ [NL] @ ''hello world'' @ [NL]"
  let ?s = "init_searchstruct
        \<lparr>entries := [\<lparr>data = ''a.c'' @ [NUL], line = 0\<rparr>,
                     \<lparr>data = ''hello'' @ [NUL], line = 1\<rparr>,
                     \<lparr>data = ''hello world'' @ [NUL], line = 3\<rparr>],
         nb_lines := 2\<rparr>"
  have len: "length ?mem < 2 ^ 31" by simp
  have run: "scan_files ?prs init_searchstruct [(''a.c'', ?mem, 24)] = Inr ?s" by (rule s1_store)
  have "\<forall>(file, mem, sz)\<in>set [(''a.c'', ?mem, 24 :: nat)]. length mem < 2 ^ 31" by simp
  from main_store [OF run this] have reach: "store_of_run (entries ?s)" .
  have one: "scan_file ?prs init_searchstruct ''a.c'' ?mem 24 = Inr ?s"
    using run by (simp split: sum.splits)
  from stores_well_formed [of "entries ?s" ?prs init_searchstruct "''a.c''" ?mem 24 ?s] reach one len
  show ?thesis by (simp add: init_searchstruct_def matches_def is_file_entry_def strdup_def c_str_def NUL_def)
qed

section \<open>Headers and match lines are told apart by the line number\<close>

lemma nonzero_at_least_1: "(w :: 32 word) \<noteq> 0 \<Longrightarrow> 1 \<le> unat w"
  by (simp add: unat_gt_0 Suc_leI)

text \<open>
  C10 (the line field tags the entries). mainsearch\_add\_file stores the line number 0.
  What a file adds to the main store is nothing, or its header with line number 0 and
  then match lines with line numbers of at least 1 (the workers count from 1, the
  offset of the second half is added in 32 bits, and a mapping shorter than \<open>2^31\<close>
  bytes keeps the sum below \<open>2^32\<close>). The match lines of a child store are the
  matching match lines of the father, with the line numbers of the father.
\<close>

theorem entries_tagged_by_line:
  "line (last (entries (mainsearch_add_file s f))) = 0
   \<and> (scan_file prs s f mem sz = Inr s' \<longrightarrow> length mem < 2 ^ 31 \<longrightarrow>
        (\<exists>lines. entries s' = entries s @ (if lines = [] then [] else \<lparr>data = strdup f, line = 0\<rparr> # lines)
            \<and> (\<forall>e\<in>set lines. 1 \<le> unat (line e))))
   \<and> (heap st father_p = Some fa \<longrightarrow>
        subsearch regcomp_ok regexec st father_p new search = Inr (st', Some c) \<longrightarrow>
        (\<exists>ch. heap st' c = Some ch \<and>
           matches ch = map (\<lambda>e. (line e, strdup (data e)))
             (filter (\<lambda>e. \<not> is_file_entry e \<and> regexec (c_str search) (c_str (data e))) (entries fa))))"
proof (intro conjI impI)
  show "line (last (entries (mainsearch_add_file s f))) = 0"
    by (simp add: mainsearch_add_file_def)
next
  assume a: "scan_file prs s f mem sz = Inr s'" "length mem < 2 ^ 31"
  from scan_file_appends [OF a] obtain lines where
    l: "entries s' = entries s @ (if lines = [] then [] else \<lparr>data = strdup f, line = 0\<rparr> # lines)"
       "\<forall>e\<in>set lines. line e \<noteq> 0" by blast
  from l(2) have "\<forall>e\<in>set lines. 1 \<le> unat (line e)" using nonzero_at_least_1 by blast
  with l(1) show "\<exists>lines. entries s' = entries s @ (if lines = [] then [] else \<lparr>data = strdup f, line = 0\<rparr> # lines)
            \<and> (\<forall>e\<in>set lines. 1 \<le> unat (line e))" by blast
next
  assume a: "heap st father_p = Some fa"
    "subsearch regcomp_ok regexec st father_p new search = Inr (st', Some c)"
  from subsearch_child [OF a(2,1)] obtain ch child0 where
    c: "heap st' c = Some ch" "entries child0 = []"
       "subsearch_loop (regexec (c_str search)) (entries fa) child0 None = Inr ch" by blast
  have "matches child0 = []" using c(2) by (simp add: matches_def)
  with subsearch_loop_matches [OF c(3)] c(1)
  show "\<exists>ch. heap st' c = Some ch \<and>
           matches ch = map (\<lambda>e. (line e, strdup (data e)))
             (filter (\<lambda>e. \<not> is_file_entry e \<and> regexec (c_str search) (c_str (data e))) (entries fa))"
    by simp
qed

text \<open>The store of the three-line file above, and its child for the pattern \<open>world\<close>.\<close>

theorem entries_tagged_by_line_witness:
  "line (last (entries (mainsearch_add_file init_searchstruct ''a.c''))) = 0
   \<and> map (\<lambda>e. unat (line e)) [\<lparr>data = ''a.c'' @ [NUL], line = 0\<rparr>,
                     \<lparr>data = ''hello'' @ [NUL], line = 1\<rparr>,
                     \<lparr>data = ''hello world'' @ [NUL], line = 3\<rparr>] = [0, 1, 3]
   \<and> matches (init_searchstruct
        \<lparr>entries := [\<lparr>data = ''a.c'' @ [NUL], line = 0\<rparr>,
                     \<lparr>data = ''hello world'' @ [NUL], line = 3\<rparr>],
         nb_lines := 1, pattern := ''world'', father := Some 0\<rparr>) = [(3, ''hello world'' @ [NUL])]"
proof -
  let ?prs = "\<lambda>text n. strstr_wrapper text ''hello'' n"
  let ?mem = "''hello'' @ [NL] @ ''world'' @ [NL] @ ''hello world'' @ [NL]"
  let ?fa = "init_searchstruct
        \<lparr>entries := [\<lparr>data = ''a.c'' @ [NUL], line = 0\<rparr>,
                     \<lparr>data = ''hello'' @ [NUL], line = 1\<rparr>,
                     \<lparr>data = ''hello world'' @ [NUL], line = 3\<rparr>],
         nb_lines := 2\<rparr>"
  let ?ch = "init_searchstruct
        \<lparr>entries := [\<lparr>data = ''a.c'' @ [NUL], line = 0\<rparr>,
                     \<lparr>data = ''hello world'' @ [NUL], line = 3\<rparr>],
         nb_lines := 1, pattern := ''world'', father := Some 0\<rparr>"
  let ?st = "\<lparr>heap = (\<lambda>a. None)(0 := Some ?fa), mainsearch = 0, current = 0\<rparr>"
  let ?st' = "\<lparr>heap = (\<lambda>a. None)(0 := Some (?fa\<lparr>child := Some 1\<rparr>), 1 := Some ?ch),
               mainsearch = 0, current = 1\<rparr>"
  have len: "length ?mem < 2 ^ 31" by simp
  have one: "scan_file ?prs init_searchstruct ''a.c'' ?mem 24 = Inr ?fa"
    using s1_store by (simp split: sum.splits)
  have hp: "heap ?st 0 = Some ?fa" by simp
  have sub: "subsearch (\<lambda>p. True) occurs ?st 0 1 ''world'' = Inr (?st', Some 1)"
    by (simp add: subsearch_def init_searchstruct_def c_str_def NUL_def terminated_def
        is_file_entry_def strdup_def Let_def fun_upd_twist)
  from entries_tagged_by_line [of init_searchstruct "''a.c''" ?prs ?mem 24 ?fa ?st 0 ?fa
      "\<lambda>p. True" occurs 1 "''world''" ?st' 1] one len hp sub
  show ?thesis
    by (simp add: init_searchstruct_def matches_def is_file_entry_def strdup_def c_str_def NUL_def
        mainsearch_add_file_def)
qed

section \<open>Movements of the cursor\<close>

lemma multiple_below:
  fixes L :: int
  assumes "0 < L" "0 \<le> r" "r < L" "L * k < L * q + r"
  shows "k \<le> q"
proof (rule ccontr)
  assume "\<not> k \<le> q"
  then have "q + 1 \<le> k" by simp
  then have "L * (q + 1) \<le> L * k" using assms(1) by (simp add: mult_left_mono)
  then have "L * q + L \<le> L * k" by (simp add: distrib_left)
  with assms(3,4) show False by simp
qed

lemma max_index_facts:
  fixes L n :: int
  assumes "0 < L" "0 < n"
  defines "M \<equiv> (if n mod L = 0 then n - L else n - n mod L)"
  shows "M mod L = 0" "0 \<le> M" "M < n" "M + (n - 1) mod L = n - 1"
    and "\<And>i. i mod L = 0 \<Longrightarrow> 0 \<le> i \<Longrightarrow> i < n \<Longrightarrow> i \<le> M \<and> (i \<noteq> M \<longrightarrow> i + L \<le> M)"
proof -
  define q r where "q = n div L" and "r = n mod L"
  have n: "n = L * q + r" by (simp add: q_def r_def)
  have r: "0 \<le> r" "r < L" using assms(1) by (simp_all add: r_def)
  have q0: "0 \<le> q" using assms by (simp add: q_def pos_imp_zdiv_nonneg_iff)
  have q1: "1 \<le> q" if "r = 0"
  proof (rule ccontr)
    assume "\<not> 1 \<le> q"
    with q0 have "q = 0" by simp
    with n that assms(2) show False by simp
  qed
  have "M = (if r = 0 then n - L else n - r)" by (simp add: M_def r_def)
  then have M: "M = (if r = 0 then L * (q - 1) else L * q)"
    by (simp add: n right_diff_distrib)
  show "M mod L = 0" by (simp add: M)
  show "0 \<le> M" using q0 q1 assms(1) by (auto simp: M)
  show "M < n" using r assms(1) by (auto simp: M n right_diff_distrib)
  show "M + (n - 1) mod L = n - 1"
  proof (cases "r = 0")
    case True
    have e1: "n - 1 = L * (q - 1) + (L - 1)" using True by (simp add: n right_diff_distrib)
    have "(L - 1) mod L = L - 1" using assms(1) by (intro mod_pos_pos_trivial) simp_all
    then have e2: "(L * (q - 1) + (L - 1)) mod L = L - 1" by (simp only: mod_mult_self4)
    have "(n - 1) mod L = L - 1" unfolding e1 by (rule e2)
    moreover have "M = n - L" using True by (simp add: M_def r_def)
    ultimately show ?thesis by simp
  next
    case False
    have e1: "n - 1 = L * q + (r - 1)" by (simp add: n)
    have "(r - 1) mod L = r - 1" using r False by (intro mod_pos_pos_trivial) simp_all
    then have e2: "(L * q + (r - 1)) mod L = r - 1" by (simp only: mod_mult_self4)
    have "(n - 1) mod L = r - 1" unfolding e1 by (rule e2)
    moreover have "M = n - r" using False by (simp add: M_def r_def)
    ultimately show ?thesis by simp
  qed
  show "i \<le> M \<and> (i \<noteq> M \<longrightarrow> i + L \<le> M)" if i: "i mod L = 0" "0 \<le> i" "i < n" for i
  proof -
    define k where "k = i div L"
    have ik: "i = L * k" using i(1) by (simp add: k_def mod_eq_0_iff_dvd)
    show ?thesis
    proof (cases "r = 0")
      case True
      with i(3) have "L * k < L * q" by (simp add: ik n)
      then have "k < q" using assms(1) by (simp add: mult_less_cancel_left)
      then have kq: "k \<le> q - 1" by simp
      then have le: "L * k \<le> L * (q - 1)" using assms(1) by (simp add: mult_left_mono)
      have "L * k + L \<le> L * (q - 1)" if "L * k \<noteq> L * (q - 1)"
      proof -
        from that kq have "k + 1 \<le> q - 1" by (cases "k = q - 1") auto
        then have "L * (k + 1) \<le> L * (q - 1)" using assms(1) by (simp add: mult_left_mono)
        then show ?thesis by (simp add: distrib_left)
      qed
      with le True show ?thesis by (simp add: M ik)
    next
      case False
      from i(3) have "L * k < L * q + r" by (simp add: ik n)
      from multiple_below [OF assms(1) r this] have kq: "k \<le> q" .
      then have le: "L * k \<le> L * q" using assms(1) by (simp add: mult_left_mono)
      have "L * k + L \<le> L * q" if "L * k \<noteq> L * q"
      proof -
        from that kq have "k + 1 \<le> q" by (cases "k = q") auto
        then have "L * (k + 1) \<le> L * q" using assms(1) by (simp add: mult_left_mono)
        then show ?thesis by (simp add: distrib_left)
      qed
      with le False show ?thesis by (simp add: M ik)
    qed
  qed
qed

lemma is_file_same_entries: "entries t = entries s \<Longrightarrow> is_file i t = is_file i s"
  by (simp add: is_file_def nbentry_def)

lemma nav_store_facts:
  assumes "well_formed (entries s)" "entries s \<noteq> []"
  shows "is_file 0 s = Some True"
    and "is_file (int (nbentry s) - 1) s = Some False"
    and "\<And>i. is_file i s = Some True \<Longrightarrow> is_file (i + 1) s = Some False"
    and "\<And>i. is_file i s = Some True \<Longrightarrow> 0 < i \<Longrightarrow> is_file (i - 1) s = Some False"
    and "\<And>i. 0 \<le> i \<Longrightarrow> i < int (nbentry s) \<Longrightarrow> \<exists>f. is_file i s = Some f"
proof -
  let ?es = "entries s"
  from assms(1) have hb: "header_blocks ?es" by (rule well_formed_header_blocks)
  have n: "0 < length ?es" using assms(2) by simp
  show "is_file 0 s = Some True"
    using hb assms(2) n by (simp add: is_file_def nbentry_def header_blocks_def hd_conv_nth)
  have "nat (int (length ?es) - 1) = length ?es - 1" by simp
  then show "is_file (int (nbentry s) - 1) s = Some False"
    using hb assms(2) n by (simp add: is_file_def nbentry_def header_blocks_def last_conv_nth)
  show "is_file (i + 1) s = Some False" if "is_file i s = Some True" for i
  proof -
    from that have i: "0 \<le> i" "nat i < length ?es" "is_file_entry (?es ! nat i)"
      by (auto simp: is_file_def nbentry_def split: if_splits)
    with assms(1) have "Suc (nat i) < length ?es \<and> \<not> is_file_entry (?es ! Suc (nat i))"
      unfolding well_formed_def by blast
    then have nx: "Suc (nat i) < length ?es" "\<not> is_file_entry (?es ! Suc (nat i))" by simp_all
    have "nat (i + 1) = Suc (nat i)" using i(1) by simp
    moreover have "i + 1 < int (length ?es)" using nx(1) i(1) by linarith
    ultimately show ?thesis using i(1) nx(2) by (simp add: is_file_def nbentry_def)
  qed
  show "is_file (i - 1) s = Some False" if "is_file i s = Some True" "0 < i" for i
  proof -
    from that have i: "nat i < length ?es" "is_file_entry (?es ! nat i)"
      by (auto simp: is_file_def nbentry_def split: if_splits)
    have s: "Suc (nat (i - 1)) = nat i" using that(2) by simp
    with i(1) have "Suc (nat (i - 1)) < length ?es" by simp
    with hb have "\<not> (is_file_entry (?es ! nat (i - 1)) \<and> is_file_entry (?es ! Suc (nat (i - 1))))"
      unfolding header_blocks_def by blast
    with i(2) s have "\<not> is_file_entry (?es ! nat (i - 1))" by simp
    then show ?thesis using that(2) i(1) by (simp add: is_file_def nbentry_def)
  qed
  show "\<exists>f. is_file i s = Some f" if "0 \<le> i" "i < int (nbentry s)" for i
    using that by (simp add: is_file_def)
qed

lemma is_file_in_range: "is_file i s = Some f \<Longrightarrow> 0 \<le> i \<and> i < int (nbentry s)"
  by (simp add: is_file_def split: if_splits)

lemma page_down_ok:
  assumes wf: "well_formed (entries s)" "entries s \<noteq> []" and L: "0 < L"
    and idx: "0 \<le> index s" "index s < int (nbentry s)" "index s mod L = 0"
  shows "\<exists>t. page_down L s = Some t \<and> nav_inv L t \<and> entries t = entries s
           \<and> selected_is_file t = Some False"
proof -
  note f = nav_store_facts [OF wf]
  define n where "n = int (nbentry s)"
  define M where "M = (if n mod L = 0 then n - L else n - n mod L)"
  have n0: "0 < n" using wf(2) by (simp add: n_def nbentry_def)
  note m = max_index_facts [OF L n0, folded M_def]
  have ne: "nbentry s \<noteq> 0" using wf(2) by (simp add: nbentry_def)
  define cursor1 where "cursor1 = (if index s = M then (n - 1) mod L else 0)"
  define index2 where "index2 = (if index s + L > M then M else index s + L)"
  have pd: "page_down L s = (case is_file (index2 + cursor1) s of
             None \<Rightarrow> None
           | Some f \<Rightarrow> Some (s\<lparr>index := index2, cursor := (if f then cursor1 + 1 else cursor1)\<rparr>))"
    unfolding page_down_def using ne
    by (simp only: if_False Let_def n_def M_def cursor1_def index2_def)
  from m(5) [OF idx(3,1)] idx(2) have le: "index s \<le> M" "index s \<noteq> M \<longrightarrow> index s + L \<le> M"
    by (simp_all add: n_def)
  show ?thesis
  proof (cases "index s = M")
    case True
    then have c: "cursor1 = (n - 1) mod L" "index2 = M" using L by (simp_all add: cursor1_def index2_def)
    have pos: "index2 + cursor1 = n - 1" using m(4) c by simp
    with f(2) have isf: "is_file (index2 + cursor1) s = Some False" by (simp add: n_def)
    define t where "t = s\<lparr>index := index2, cursor := cursor1\<rparr>"
    have pt: "page_down L s = Some t" using pd isf by (simp add: t_def)
    have et: "entries t = entries s" "index t = index2" "cursor t = cursor1" "nbentry t = nbentry s"
      by (simp_all add: t_def nbentry_def)
    have "0 \<le> cursor1" "cursor1 < L" using L c(1) by simp_all
    then have "nav_inv L t"
      unfolding nav_inv_def et using m(1,2,3) pos n0 c(2) by (simp add: n_def)
    moreover have "selected_is_file t = Some False"
      using isf by (simp add: selected_is_file_def et is_file_same_entries [OF et(1)])
    ultimately show ?thesis using pt et(1) by blast
  next
    case False
    with le have c: "cursor1 = 0" "index2 = index s + L" "index2 \<le> M" by (simp_all add: cursor1_def index2_def)
    have rng: "0 \<le> index2" "index2 < n" "index2 mod L = 0"
      using c(2,3) idx(1,3) L m(3) by simp_all
    from f(5) [of index2] rng obtain fl where fl: "is_file index2 s = Some fl" by (auto simp: n_def)
    define t where "t = s\<lparr>index := index2, cursor := (if fl then 1 else 0)\<rparr>"
    have pt: "page_down L s = Some t" using pd fl c(1) by (simp add: t_def)
    have et: "entries t = entries s" "index t = index2" "cursor t = (if fl then 1 else 0)" "nbentry t = nbentry s"
      by (simp_all add: t_def nbentry_def)
    have sel: "is_file (index2 + (if fl then 1 else 0)) s = Some False"
      using fl f(3) [of index2] by (cases fl) simp_all
    from is_file_in_range [OF sel] have "0 \<le> index2 + (if fl then 1 else 0)"
      "index2 + (if fl then 1 else 0) < int (nbentry s)" by simp_all
    moreover have "(0 \<le> (if fl then 1 else 0 :: int) \<and> (if fl then 1 else 0) < L) \<or> L = 1"
      using L by (cases fl) auto
    ultimately have "nav_inv L t"
      unfolding nav_inv_def et using rng by (simp add: n_def)
    moreover have "selected_is_file t = Some False"
      using sel by (simp add: selected_is_file_def et is_file_same_entries [OF et(1)])
    ultimately show ?thesis using pt et(1) by blast
  qed
qed

lemma positive_multiple:
  fixes L i :: int
  assumes "0 < L" "i mod L = 0" "0 < i"
  shows "L \<le> i"
proof -
  from assms(2) obtain k where k: "i = L * k" by (auto simp: mod_eq_0_iff_dvd)
  with assms(1,3) have "0 < k" by (simp add: zero_less_mult_iff)
  then have "1 \<le> k" by simp
  then have "L * 1 \<le> L * k" using assms(1) by (simp add: mult_left_mono)
  with k show ?thesis by simp
qed

lemma page_up_ok:
  assumes wf: "well_formed (entries s)" "entries s \<noteq> []" and L: "0 < L"
    and idx: "0 \<le> index s" "index s < int (nbentry s)" "index s mod L = 0"
  shows "\<exists>t. page_up L s = Some t \<and> nav_inv L t \<and> entries t = entries s
           \<and> (selected_is_file t = Some False
               \<or> (index t = 0 \<and> (cursor t = 0 \<or> cursor t = L - 1)))"
proof -
  note f = nav_store_facts [OF wf]
  define n where "n = int (nbentry s)"
  have n0: "0 < n" using wf(2) by (simp add: n_def nbentry_def)
  define cursor1 where "cursor1 = (if index s = 0 then 0 else L - 1)"
  define index2 where "index2 = (if index s - L < 0 then 0 else index s - L)"
  have pu: "page_up L s = (case is_file (index2 + cursor1) s of
           None \<Rightarrow> None
         | Some f \<Rightarrow>
             Some (s\<lparr>index := index2,
                     cursor := (if f \<and> index2 \<noteq> 0 then cursor1 - 1 else cursor1)\<rparr>))"
    unfolding page_up_def by (simp only: Let_def cursor1_def index2_def)
  show ?thesis
  proof (cases "index s = 0")
    case True
    then have c: "cursor1 = 0" "index2 = 0" using L by (simp_all add: cursor1_def index2_def)
    define t where "t = s\<lparr>index := 0, cursor := 0\<rparr>"
    have pt: "page_up L s = Some t" using pu f(1) c by (simp add: t_def)
    have et: "entries t = entries s" "index t = 0" "cursor t = 0" "nbentry t = nbentry s"
      by (simp_all add: t_def nbentry_def)
    have "nav_inv L t" unfolding nav_inv_def et using n0 L by (simp add: n_def)
    with pt et(1,2,3) show ?thesis by blast
  next
    case False
    with idx(1) have "0 < index s" by simp
    from positive_multiple [OF L idx(3) this] have ge: "L \<le> index s" .
    then have c: "cursor1 = L - 1" "index2 = index s - L" using False by (simp_all add: cursor1_def index2_def)
    have pos: "index2 + cursor1 = index s - 1" using c by simp
    have rng: "0 \<le> index2" "index2 < n" "index2 mod L = 0"
      using c(2) ge idx(2,3) L by (simp_all add: n_def)
    have "0 \<le> index s - 1" "index s - 1 < int (nbentry s)" using ge L idx(2) by simp_all
    from f(5) [OF this] obtain fl where fl: "is_file (index s - 1) s = Some fl" by blast
    define cursor2 where "cursor2 = (if fl \<and> index2 \<noteq> 0 then cursor1 - 1 else cursor1)"
    define t where "t = s\<lparr>index := index2, cursor := cursor2\<rparr>"
    have pt: "page_up L s = Some t" using pu fl pos by (simp add: t_def cursor2_def)
    have et: "entries t = entries s" "index t = index2" "cursor t = cursor2" "nbentry t = nbentry s"
      by (simp_all add: t_def nbentry_def)
    show ?thesis
    proof (cases "fl \<and> index2 \<noteq> 0")
      case True
      then have c2: "cursor2 = L - 2" using c(1) by (simp add: cursor2_def)
      have "0 < index2" using True rng(1) by simp
      then have big: "0 < index s - 1" using c(2) L by simp
      from f(4) [OF _ big] fl True have sel: "is_file (index s - 1 - 1) s = Some False" by simp
      have p2: "index2 + cursor2 = index s - 1 - 1" using c(2) c2 by simp
      from is_file_in_range [OF sel] have "0 \<le> index2 + cursor2" "index2 + cursor2 < int (nbentry s)"
        using p2 by simp_all
      moreover have "(0 \<le> cursor2 \<and> cursor2 < L) \<or> L = 1" using c2 L by auto
      ultimately have "nav_inv L t" unfolding nav_inv_def et using rng by (simp add: n_def)
      moreover have "selected_is_file t = Some False"
        using sel p2 by (simp add: selected_is_file_def et is_file_same_entries [OF et(1)])
      ultimately show ?thesis using pt et(1) by blast
    next
      case False
      then have c2: "cursor2 = L - 1" using c(1) by (simp add: cursor2_def)
      have p2: "index2 + cursor2 = index s - 1" using c(2) c2 by simp
      from is_file_in_range [OF fl] have "0 \<le> index2 + cursor2" "index2 + cursor2 < int (nbentry s)"
        using p2 by simp_all
      moreover have "(0 \<le> cursor2 \<and> cursor2 < L) \<or> L = 1" using c2 L by auto
      ultimately have "nav_inv L t" unfolding nav_inv_def et using rng by (simp add: n_def)
      moreover have "selected_is_file t = Some fl"
        using fl p2 by (simp add: selected_is_file_def et is_file_same_entries [OF et(1)])
      moreover have "\<not> fl \<or> (index t = 0 \<and> cursor t = L - 1)" using False et(2,3) c2 by auto
      ultimately show ?thesis using pt et(1) by auto
    qed
  qed
qed

lemma cursor_down_ok:
  assumes wf: "well_formed (entries s)" "entries s \<noteq> []" and L: "0 < L" and inv: "nav_inv L s"
  shows "\<exists>t. cursor_down L s = Some t \<and> nav_inv L t \<and> entries t = entries s
           \<and> selected_is_file t = Some False"
proof -
  note f = nav_store_facts [OF wf]
  from inv have idx: "0 \<le> index s" "index s < int (nbentry s)" "index s mod L = 0"
    and cur: "0 \<le> index s + cursor s" "index s + cursor s < int (nbentry s)"
      "(0 \<le> cursor s \<and> cursor s < L) \<or> L = 1"
    by (simp_all add: nav_inv_def)
  show ?thesis
  proof (cases "cursor s = L - 1")
    case True
    then have "cursor_down L s = page_down L s" by (simp add: cursor_down_def)
    with page_down_ok [OF wf L idx] show ?thesis by simp
  next
    case False
    define cursor1 where "cursor1 = (if cursor s + index s < int (nbentry s) - 1 then cursor s + 1 else cursor s)"
    have cd: "cursor_down L s = (case is_file (index s + cursor1) s of
             None \<Rightarrow> None
           | Some f \<Rightarrow>
               (let cursor2 = (if f then cursor1 + 1 else cursor1)
                in if cursor2 > L - 1 then page_down L (s\<lparr>cursor := cursor2\<rparr>)
                   else Some (s\<lparr>cursor := cursor2\<rparr>)))"
      unfolding cursor_down_def using False by (simp only: if_False Let_def cursor1_def)
    have "0 \<le> index s + cursor1" "index s + cursor1 < int (nbentry s)"
      using cur by (simp_all add: cursor1_def)
    from f(5) [OF this] obtain fl where fl: "is_file (index s + cursor1) s = Some fl" by blast
    define cursor2 where "cursor2 = (if fl then cursor1 + 1 else cursor1)"
    have sel: "is_file (index s + cursor2) s = Some False"
      using fl f(3) [of "index s + cursor1"] by (cases fl) (simp_all add: cursor2_def add.assoc)
    show ?thesis
    proof (cases "cursor2 > L - 1")
      case True
      let ?s = "s\<lparr>cursor := cursor2\<rparr>"
      have "cursor_down L s = page_down L ?s" using cd fl True by (simp add: cursor2_def Let_def)
      moreover have "\<exists>t. page_down L ?s = Some t \<and> nav_inv L t \<and> entries t = entries ?s
           \<and> selected_is_file t = Some False"
        by (rule page_down_ok) (use wf L idx in \<open>simp_all add: nbentry_def\<close>)
      ultimately show ?thesis by simp
    next
      case le: False
      define t where "t = s\<lparr>cursor := cursor2\<rparr>"
      have pt: "cursor_down L s = Some t" using cd fl le by (simp add: cursor2_def Let_def t_def)
      have et: "entries t = entries s" "index t = index s" "cursor t = cursor2" "nbentry t = nbentry s"
        by (simp_all add: t_def nbentry_def)
      have "cursor s \<le> cursor2" by (simp add: cursor2_def cursor1_def)
      with cur(3) le have "(0 \<le> cursor2 \<and> cursor2 < L) \<or> L = 1" by auto
      moreover from is_file_in_range [OF sel] have "0 \<le> index s + cursor2" "index s + cursor2 < int (nbentry s)"
        by simp_all
      ultimately have "nav_inv L t" unfolding nav_inv_def et using idx by simp
      moreover have "selected_is_file t = Some False"
        using sel by (simp add: selected_is_file_def et is_file_same_entries [OF et(1)])
      ultimately show ?thesis using pt et(1) by blast
    qed
  qed
qed

lemma cursor_up_ok:
  assumes wf: "well_formed (entries s)" "entries s \<noteq> []" and L: "0 < L" and inv: "nav_inv L s"
  shows "\<exists>t. cursor_up L s = Some t \<and> nav_inv L t \<and> entries t = entries s
           \<and> (selected_is_file t = Some False
               \<or> (index t = 0 \<and> (cursor t = 0 \<or> cursor t = L - 1)))"
proof -
  note f = nav_store_facts [OF wf]
  from inv have idx: "0 \<le> index s" "index s < int (nbentry s)" "index s mod L = 0"
    and cur: "0 \<le> index s + cursor s" "index s + cursor s < int (nbentry s)"
      "(0 \<le> cursor s \<and> cursor s < L) \<or> L = 1"
    by (simp_all add: nav_inv_def)
  show ?thesis
  proof (cases "cursor s = 0")
    case True
    then have "cursor_up L s = page_up L s" by (simp add: cursor_up_def)
    with page_up_ok [OF wf L idx] show ?thesis by simp
  next
    case False
    define cursor1 where "cursor1 = (if cursor s > 0 then cursor s - 1 else cursor s)"
    have cu: "cursor_up L s = (case is_file (index s + cursor1) s of
             None \<Rightarrow> None
           | Some f \<Rightarrow>
               (let cursor2 = (if f then cursor1 - 1 else cursor1)
                in if cursor2 < 0 then page_up L (s\<lparr>cursor := cursor2\<rparr>)
                   else Some (s\<lparr>cursor := cursor2\<rparr>)))"
      unfolding cursor_up_def using False by (simp only: if_False Let_def cursor1_def)
    have "0 \<le> index s + cursor1" "index s + cursor1 < int (nbentry s)"
      using cur idx(1) by (simp_all add: cursor1_def)
    from f(5) [OF this] obtain fl where fl: "is_file (index s + cursor1) s = Some fl" by blast
    define cursor2 where "cursor2 = (if fl then cursor1 - 1 else cursor1)"
    show ?thesis
    proof (cases "cursor2 < 0")
      case True
      let ?s = "s\<lparr>cursor := cursor2\<rparr>"
      have "cursor_up L s = page_up L ?s" using cu fl True by (simp add: cursor2_def Let_def)
      moreover have "\<exists>t. page_up L ?s = Some t \<and> nav_inv L t \<and> entries t = entries ?s
           \<and> (selected_is_file t = Some False
               \<or> (index t = 0 \<and> (cursor t = 0 \<or> cursor t = L - 1)))"
        by (rule page_up_ok) (use wf L idx in \<open>simp_all add: nbentry_def\<close>)
      ultimately show ?thesis by simp
    next
      case ge: False
      define t where "t = s\<lparr>cursor := cursor2\<rparr>"
      have pt: "cursor_up L s = Some t" using cu fl ge by (simp add: cursor2_def Let_def t_def)
      have et: "entries t = entries s" "index t = index s" "cursor t = cursor2" "nbentry t = nbentry s"
        by (simp_all add: t_def nbentry_def)
      have c1: "0 < cursor s" "cursor1 = cursor s - 1"
        using ge False by (auto simp: cursor2_def cursor1_def split: if_splits)
      have sel: "is_file (index s + cursor2) s = Some False"
      proof (cases fl)
        case True
        then have "0 < cursor1" using ge by (simp add: cursor2_def)
        with idx(1) have "0 < index s + cursor1" by simp
        from f(4) [OF _ this] fl True have "is_file (index s + cursor1 - 1) s = Some False" by simp
        moreover have "index s + cursor1 - 1 = index s + (cursor1 - 1)" by simp
        ultimately show ?thesis using True by (simp only: cursor2_def if_True)
      next
        case False
        with fl show ?thesis by (simp add: cursor2_def)
      qed
      have "cursor2 \<le> cursor s" using c1 by (simp add: cursor2_def)
      with cur(3) ge have "(0 \<le> cursor2 \<and> cursor2 < L) \<or> L = 1" by auto
      moreover from is_file_in_range [OF sel] have "0 \<le> index s + cursor2" "index s + cursor2 < int (nbentry s)"
        by simp_all
      ultimately have "nav_inv L t" unfolding nav_inv_def et using idx by simp
      moreover have "selected_is_file t = Some False"
        using sel by (simp add: selected_is_file_def et is_file_same_entries [OF et(1)])
      ultimately show ?thesis using pt et(1) by blast
    qed
  qed
qed

text \<open>
  find\_file on a well-formed store: from an entry in use it stops on the nearest header
  at or before it, and every entry it passed is a match line.
\<close>

lemma find_file_nearest_header:
  assumes wf: "well_formed (entries s)"
  shows "0 \<le> i \<Longrightarrow> i < int (nbentry s) \<Longrightarrow>
         \<exists>j. find_file i s = Some j \<and> 0 \<le> j \<and> j \<le> i \<and> is_file j s = Some True
             \<and> (\<forall>k. j < k \<and> k \<le> i \<longrightarrow> is_file k s = Some False)"
proof (induction "nat i" arbitrary: i)
  case 0
  then have i: "i = 0" by simp
  have ne: "entries s \<noteq> []" using "0.prems" by (auto simp: nbentry_def)
  from nav_store_facts(1) [OF wf ne] have h: "is_file 0 s = Some True" .
  then have "find_file 0 s = Some 0" by (subst find_file.simps) simp
  with h i show ?case by auto
next
  case (Suc n)
  have ne: "entries s \<noteq> []" using Suc.prems by (auto simp: nbentry_def)
  note f = nav_store_facts [OF wf ne]
  from f(5) [OF Suc.prems] obtain fl where fl: "is_file i s = Some fl" by blast
  show ?case
  proof (cases fl)
    case True
    with fl have "find_file i s = Some i" by (subst find_file.simps) simp
    with fl True Suc.prems(1) show ?thesis by auto
  next
    case False
    with fl have step: "find_file i s = find_file (i - 1) s" by (subst find_file.simps) simp
    have pos: "0 < i" using Suc.hyps(2) by simp
    have "n = nat (i - 1)" "0 \<le> i - 1" "i - 1 < int (nbentry s)"
      using Suc.hyps(2) Suc.prems by simp_all
    from Suc.hyps(1) [OF this] obtain j where
      j: "find_file (i - 1) s = Some j" "0 \<le> j" "j \<le> i - 1" "is_file j s = Some True"
         "\<forall>k. j < k \<and> k \<le> i - 1 \<longrightarrow> is_file k s = Some False" by blast
    have "\<forall>k. j < k \<and> k \<le> i \<longrightarrow> is_file k s = Some False"
    proof (intro allI impI)
      fix k assume k: "j < k \<and> k \<le> i"
      show "is_file k s = Some False"
      proof (cases "k = i")
        case True
        with fl False show ?thesis by simp
      next
        case False
        with k have "j < k \<and> k \<le> i - 1" by simp
        with j(5) show ?thesis by blast
      qed
    qed
    with j step show ?thesis by auto
  qed
qed

lemma move_ok:
  assumes wf: "well_formed (entries s)" "entries s \<noteq> []" and L: "0 < L" and inv: "nav_inv L s"
    and k: "is_movement k"
  shows "\<exists>t. move L k s = Some t \<and> nav_inv L t \<and> entries t = entries s
           \<and> (selected_is_file t = Some False
               \<or> (index t = 0 \<and> (cursor t = 0 \<or> cursor t = L - 1)
                   \<and> (k = KEY_UP \<or> k = KEY_PPAGE)))"
proof -
  from inv have idx: "0 \<le> index s" "index s < int (nbentry s)" "index s mod L = 0"
    by (simp_all add: nav_inv_def)
  from k consider "k = KEY_UP" | "k = KEY_DOWN" | "k = KEY_PPAGE" | "k = KEY_NPAGE"
    by (auto simp: is_movement_def)
  then show ?thesis
  proof cases
    case 1
    with cursor_up_ok [OF wf L inv] show ?thesis by (auto simp: move_def)
  next
    case 2
    with cursor_down_ok [OF wf L inv] show ?thesis by (auto simp: move_def)
  next
    case 3
    with page_up_ok [OF wf L idx] show ?thesis by (auto simp: move_def)
  next
    case 4
    with page_down_ok [OF wf L idx] show ?thesis by (auto simp: move_def)
  qed
qed

text \<open>
  C9 (the selection after movements), as amended. On a well-formed store that is not
  empty, from any state of the screen as the movements leave it (the initial state
  \<open>index = 0\<close>, \<open>cursor = 0\<close> is one), every sequence of Up, Down, PageUp and PageDown
  reads entries in use only, and leaves the selection on a match line, with one
  exception: the last key was Up or PageUp, the viewport is the first page, and the
  cursor is on row 0, the first header of the store, where \<^verbatim>\<open>page_up\<close> puts it when
  \<^verbatim>\<open>index\<close> is 0 and its test \<^verbatim>\<open>*index != 0\<close> keeps it. Nothing is said of the cursor on
  the last row \<open>LINES - 1\<close> of the first page after such a key, where \<^verbatim>\<open>page_up\<close> comes
  from the second page and the same test leaves out the step over a header.
\<close>

theorem selection_after_movements:
  assumes "well_formed (entries s)" "entries s \<noteq> []" "0 < L" "nav_inv L s"
    and "ks \<noteq> []" "\<forall>k\<in>set ks. is_movement k"
  shows "\<exists>t. moves L ks s = Some t \<and> nav_inv L t \<and> entries t = entries s
           \<and> (selected_is_file t = Some False
               \<or> (index t = 0 \<and> (cursor t = 0 \<or> cursor t = L - 1)
                   \<and> (last ks = KEY_UP \<or> last ks = KEY_PPAGE)))"
  using assms
proof (induction ks arbitrary: s)
  case Nil
  then show ?case by simp
next
  case (Cons k ks)
  have "is_movement k" using Cons.prems(6) by simp
  from move_ok [OF Cons.prems(1-4) this] obtain t where
    t: "move L k s = Some t" "nav_inv L t" "entries t = entries s"
       "selected_is_file t = Some False
        \<or> (index t = 0 \<and> (cursor t = 0 \<or> cursor t = L - 1) \<and> (k = KEY_UP \<or> k = KEY_PPAGE))"
    by blast
  show ?case
  proof (cases "ks = []")
    case True
    with t show ?thesis by simp
  next
    case False
    have "well_formed (entries t)" "entries t \<noteq> []" using t(3) Cons.prems(1,2) by simp_all
    moreover have "\<forall>k\<in>set ks. is_movement k" using Cons.prems(6) by simp
    ultimately obtain u where
      u: "moves L ks t = Some u" "nav_inv L u" "entries u = entries t"
         "selected_is_file u = Some False
          \<or> (index u = 0 \<and> (cursor u = 0 \<or> cursor u = L - 1)
              \<and> (last ks = KEY_UP \<or> last ks = KEY_PPAGE))"
      using Cons.IH [OF _ _ Cons.prems(3) t(2) False] by blast
    with t(1,3) False show ?thesis by simp
  qed
qed

text \<open>
  A store of two files with one match line each, on a screen of three lines: two keys
  Down from the initial state turn the page and select the last match line.
\<close>

theorem selection_after_movements_witness:
  "moves 3 [KEY_DOWN, KEY_DOWN]
     (init_searchstruct\<lparr>entries := [\<lparr>data = ''a'', line = 0\<rparr>, \<lparr>data = ''x'', line = 1\<rparr>,
                                   \<lparr>data = ''b'', line = 0\<rparr>, \<lparr>data = ''y'', line = 7\<rparr>]\<rparr>)
   = Some (init_searchstruct\<lparr>entries := [\<lparr>data = ''a'', line = 0\<rparr>, \<lparr>data = ''x'', line = 1\<rparr>,
                                   \<lparr>data = ''b'', line = 0\<rparr>, \<lparr>data = ''y'', line = 7\<rparr>],
                              index := 3, cursor := 0\<rparr>)
   \<and> selected_is_file (init_searchstruct\<lparr>entries := [\<lparr>data = ''a'', line = 0\<rparr>, \<lparr>data = ''x'', line = 1\<rparr>,
                                   \<lparr>data = ''b'', line = 0\<rparr>, \<lparr>data = ''y'', line = 7\<rparr>],
                              index := 3, cursor := 0\<rparr>) = Some False"
proof -
  let ?es = "[\<lparr>data = ''a'', line = 0\<rparr>, \<lparr>data = ''x'', line = 1\<rparr>,
              \<lparr>data = ''b'', line = 0\<rparr>, \<lparr>data = ''y'', line = 7 :: 32 word\<rparr>]"
  let ?s = "init_searchstruct\<lparr>entries := ?es\<rparr>"
  have blocks: "header_blocks ?es"
    by (auto simp: header_blocks_def is_file_entry_def nth_Cons' less_Suc_eq)
  have h1: "well_formed (entries ?s)" using header_blocks_well_formed [OF blocks] by simp
  have h2: "entries ?s \<noteq> []" by simp
  have h3: "(0::int) < 3" by simp
  have h4: "nav_inv 3 ?s" by (simp add: nav_inv_def init_searchstruct_def nbentry_def)
  have h5: "[KEY_DOWN, KEY_DOWN] \<noteq> []" by simp
  have h6: "\<forall>k\<in>set [KEY_DOWN, KEY_DOWN]. is_movement k" by (simp add: is_movement_def)
  have e: "moves 3 [KEY_DOWN, KEY_DOWN] ?s = Some (?s\<lparr>index := 3, cursor := 0\<rparr>)"
    by code_simp
  from selection_after_movements [OF h1 h2 h3 h4 h5 h6] e
  show ?thesis
    by (auto simp: selected_is_file_def)
qed

text \<open>
  The claim as stated fails on the same store: Down from the initial state selects the
  first match line, and Up from there selects the header of the first file, on row 0
  of the first page.
\<close>

theorem movements_select_header:
  "well_formed [\<lparr>data = ''a'', line = 0\<rparr>, \<lparr>data = ''x'', line = 1\<rparr>,
                \<lparr>data = ''b'', line = 0\<rparr>, \<lparr>data = ''y'', line = 7\<rparr>]
   \<and> moves 3 [KEY_DOWN]
     (init_searchstruct\<lparr>entries := [\<lparr>data = ''a'', line = 0\<rparr>, \<lparr>data = ''x'', line = 1\<rparr>,
                                   \<lparr>data = ''b'', line = 0\<rparr>, \<lparr>data = ''y'', line = 7\<rparr>]\<rparr>)
   = Some (init_searchstruct\<lparr>entries := [\<lparr>data = ''a'', line = 0\<rparr>, \<lparr>data = ''x'', line = 1\<rparr>,
                                   \<lparr>data = ''b'', line = 0\<rparr>, \<lparr>data = ''y'', line = 7\<rparr>],
                              index := 0, cursor := 1\<rparr>)
   \<and> moves 3 [KEY_DOWN, KEY_UP]
     (init_searchstruct\<lparr>entries := [\<lparr>data = ''a'', line = 0\<rparr>, \<lparr>data = ''x'', line = 1\<rparr>,
                                   \<lparr>data = ''b'', line = 0\<rparr>, \<lparr>data = ''y'', line = 7\<rparr>]\<rparr>)
   = Some (init_searchstruct\<lparr>entries := [\<lparr>data = ''a'', line = 0\<rparr>, \<lparr>data = ''x'', line = 1\<rparr>,
                                   \<lparr>data = ''b'', line = 0\<rparr>, \<lparr>data = ''y'', line = 7\<rparr>],
                              index := 0, cursor := 0\<rparr>)
   \<and> selected_is_file (init_searchstruct\<lparr>entries := [\<lparr>data = ''a'', line = 0\<rparr>, \<lparr>data = ''x'', line = 1\<rparr>,
                                   \<lparr>data = ''b'', line = 0\<rparr>, \<lparr>data = ''y'', line = 7\<rparr>],
                              index := 0, cursor := 0\<rparr>) = Some True"
  by code_simp

text \<open>
  On the first page \<^verbatim>\<open>cursor_up\<close> itself steps over the headers below row 0: from row 3
  of a screen of five lines, under the header on row 2, Up selects the match line on
  row 1.
\<close>

lemma cursor_up_skips_header_on_first_page:
  "moves 5 [KEY_UP]
     (init_searchstruct\<lparr>entries := [\<lparr>data = ''a'', line = 0\<rparr>, \<lparr>data = ''x'', line = 1\<rparr>,
                                   \<lparr>data = ''b'', line = 0\<rparr>, \<lparr>data = ''y'', line = 7\<rparr>],
                         cursor := 3\<rparr>)
   = Some (init_searchstruct\<lparr>entries := [\<lparr>data = ''a'', line = 0\<rparr>, \<lparr>data = ''x'', line = 1\<rparr>,
                                   \<lparr>data = ''b'', line = 0\<rparr>, \<lparr>data = ''y'', line = 7\<rparr>],
                              index := 0, cursor := 1\<rparr>)"
  by code_simp

text \<open>
  The case left out: PageDown then PageUp bring the viewport back to the first page
  with the cursor on its last row, here the header of the second file at index 2. On
  any other page \<^verbatim>\<open>page_up\<close> steps over a header on the last row.
\<close>

lemma page_up_onto_first_page:
  "moves 3 [KEY_NPAGE, KEY_PPAGE]
     (init_searchstruct\<lparr>entries := [\<lparr>data = ''a'', line = 0\<rparr>, \<lparr>data = ''x'', line = 1\<rparr>,
                                   \<lparr>data = ''b'', line = 0\<rparr>, \<lparr>data = ''y'', line = 7\<rparr>]\<rparr>)
   = Some (init_searchstruct\<lparr>entries := [\<lparr>data = ''a'', line = 0\<rparr>, \<lparr>data = ''x'', line = 1\<rparr>,
                                   \<lparr>data = ''b'', line = 0\<rparr>, \<lparr>data = ''y'', line = 7\<rparr>],
                              index := 0, cursor := 2\<rparr>)
   \<and> selected_is_file (init_searchstruct\<lparr>entries := [\<lparr>data = ''a'', line = 0\<rparr>, \<lparr>data = ''x'', line = 1\<rparr>,
                                   \<lparr>data = ''b'', line = 0\<rparr>, \<lparr>data = ''y'', line = 7\<rparr>],
                              index := 0, cursor := 2\<rparr>) = Some True"
  by code_simp

section \<open>Exit codes\<close>





section \<open>The split point\<close>

lemma strchr_from_found:
  "k < length xs \<Longrightarrow> xs ! k = c \<Longrightarrow> \<forall>j<k. xs ! j \<noteq> c \<and> xs ! j \<noteq> NUL \<Longrightarrow>
   strchr_from xs c p = Inr (Some (p + k))"
proof (induction xs arbitrary: k p)
  case Nil
  then show ?case by simp
next
  case (Cons x xs)
  show ?case
  proof (cases k)
    case 0
    with Cons.prems show ?thesis by simp
  next
    case (Suc k')
    from Cons.prems(3) Suc have x: "x \<noteq> c" "x \<noteq> NUL" by auto
    have "k' < length xs" "xs ! k' = c" using Cons.prems(1,2) Suc by simp_all
    moreover have "\<forall>j<k'. xs ! j \<noteq> c \<and> xs ! j \<noteq> NUL"
    proof (intro allI impI)
      fix j assume "j < k'"
      then have "Suc j < k" using Suc by simp
      with Cons.prems(3) have "(x # xs) ! Suc j \<noteq> c \<and> (x # xs) ! Suc j \<noteq> NUL" by blast
      then show "xs ! j \<noteq> c \<and> xs ! j \<noteq> NUL" by simp
    qed
    ultimately have "strchr_from xs c (Suc p) = Inr (Some (Suc p + k'))" by (rule Cons.IH)
    with x Suc show ?thesis by simp
  qed
qed

lemma strchr_from_none:
  "k < length xs \<Longrightarrow> xs ! k = NUL \<Longrightarrow> c \<noteq> NUL \<Longrightarrow> \<forall>j<k. xs ! j \<noteq> c \<and> xs ! j \<noteq> NUL \<Longrightarrow>
   strchr_from xs c p = Inr None"
proof (induction xs arbitrary: k p)
  case Nil
  then show ?case by simp
next
  case (Cons x xs)
  show ?case
  proof (cases k)
    case 0
    with Cons.prems show ?thesis by simp
  next
    case (Suc k')
    from Cons.prems(4) Suc have x: "x \<noteq> c" "x \<noteq> NUL" by auto
    have a: "k' < length xs" "xs ! k' = NUL" using Cons.prems(1,2) Suc by simp_all
    have b: "\<forall>j<k'. xs ! j \<noteq> c \<and> xs ! j \<noteq> NUL"
    proof (intro allI impI)
      fix j assume "j < k'"
      then have "Suc j < k" using Suc by simp
      with Cons.prems(4) have "(x # xs) ! Suc j \<noteq> c \<and> (x # xs) ! Suc j \<noteq> NUL" by blast
      then show "xs ! j \<noteq> c \<and> xs ! j \<noteq> NUL" by simp
    qed
    have "strchr_from xs c (Suc p) = Inr None" by (rule Cons.IH [OF a Cons.prems(3) b])
    with x show ?thesis by simp
  qed
qed

lemma strchr_found:
  assumes "p \<le> k" "k < length mem" "mem ! k = c" "\<forall>j. p \<le> j \<and> j < k \<longrightarrow> mem ! j \<noteq> c \<and> mem ! j \<noteq> NUL"
  shows "strchr mem p c = Inr (Some k)"
proof -
  have "strchr_from (drop p mem) c p = Inr (Some (p + (k - p)))"
    by (rule strchr_from_found) (use assms in \<open>auto\<close>)
  with assms(1) show ?thesis by (simp add: strchr_def)
qed

lemma strchr_none:
  assumes "p \<le> k" "k < length mem" "mem ! k = NUL" "c \<noteq> NUL"
    "\<forall>j. p \<le> j \<and> j < k \<longrightarrow> mem ! j \<noteq> c \<and> mem ! j \<noteq> NUL"
  shows "strchr mem p c = Inr None"
proof -
  have "strchr_from (drop p mem) c p = Inr None"
    by (rule strchr_from_none [where k = "k - p"]) (use assms in \<open>auto\<close>)
  then show ?thesis by (simp add: strchr_def)
qed

lemma strchr_from_points:
  "strchr_from xs c p = Inr (Some e) \<Longrightarrow> p \<le> e \<and> xs ! (e - p) = c"
proof (induction xs arbitrary: p)
  case Nil
  then show ?case by simp
next
  case (Cons x xs)
  show ?case
  proof (cases "x = c \<or> x = NUL")
    case True
    with Cons.prems show ?thesis by (auto split: if_splits)
  next
    case False
    with Cons.prems have "strchr_from xs c (Suc p) = Inr (Some e)" by simp
    from Cons.IH [OF this] have "Suc p \<le> e" "xs ! (e - Suc p) = c" by simp_all
    moreover from this(1) have "e - p = Suc (e - Suc p)" by simp
    ultimately show ?thesis by simp
  qed
qed

lemma strchr_points: "strchr mem p c = Inr (Some e) \<Longrightarrow> mem ! e = c"
proof -
  assume a: "strchr mem p c = Inr (Some e)"
  from strchr_bounds [OF a] have b: "p \<le> e" "e < length mem" by simp_all
  from a have "strchr_from (drop p mem) c p = Inr (Some e)" by (simp add: strchr_def)
  from strchr_from_points [OF this] have "drop p mem ! (e - p) = c" by simp
  with b show ?thesis by simp
qed

lemma worker_loop_keeps:
  "worker_loop prs mem p e lc acc = Inr (mem', res, lc') \<Longrightarrow> mem ! k \<noteq> NL \<Longrightarrow> mem' ! k = mem ! k"
proof (induction prs mem p e lc acc rule: worker_loop.induct)
  case (1 prs mem p e line_count acc)
  show ?case
  proof (cases "int p < e")
    case False
    with "1.prems" show ?thesis by (simp add: worker_loop.simps)
  next
    case lt: True
    show ?thesis
    proof (cases "strchr mem p NL")
      case (Inl f)
      with lt "1.prems" show ?thesis by (simp add: worker_loop.simps)
    next
      case (Inr r)
      show ?thesis
      proof (cases r)
        case None
        with lt Inr "1.prems" show ?thesis by (simp add: worker_loop.simps)
      next
        case (Some endline)
        define mem1 where "mem1 = mem[endline := NUL]"
        define acc1 where "acc1 = (if prs (drop p mem1) (endline - p)
                          then acc @ [(copy_line (drop p mem1) (endline - p), line_count)]
                          else acc)"
        have step: "worker_loop prs mem p e line_count acc
            = worker_loop prs mem1 (endline + 1) e (line_count + 1) acc1"
          using lt Inr Some by (subst worker_loop.simps) (simp add: mem1_def acc1_def Let_def)
        with "1.prems" have run: "worker_loop prs mem1 (endline + 1) e (line_count + 1) acc1 = Inr (mem', res, lc')"
          by simp
        from strchr_points Inr Some have "mem ! endline = NL" by blast
        with "1.prems"(2) have "k \<noteq> endline" by auto
        then have same: "mem1 ! k = mem ! k" by (simp add: mem1_def)
        with "1.prems"(2) have "mem1 ! k \<noteq> NL" by simp
        from "1.IH" [OF lt Inr Some mem1_def acc1_def run this] same show ?thesis by simp
      qed
    qed
  qed
qed

lemma parse_file_newline:
  assumes "content \<noteq> []" "NUL \<notin> set content"
    and k: "length content div 2 \<le> k" "k < length content" "content ! k = NL"
      "\<forall>j\<in>{length content div 2..<k}. content ! j \<noteq> NL"
  shows "parse_file file (content @ replicate pad NUL) (length content)
           = Inr (Some \<lparr>name = strdup file, mid = k + 1, size_filep = length content, midline = 0\<rparr>)"
proof -
  let ?mem = "content @ replicate pad NUL"
  have "\<forall>j. length content div 2 \<le> j \<and> j < k \<longrightarrow> ?mem ! j \<noteq> NL \<and> ?mem ! j \<noteq> NUL"
  proof (intro allI impI)
    fix j assume j: "length content div 2 \<le> j \<and> j < k"
    then have "j < length content" using k(2) by simp
    then have "?mem ! j = content ! j" "content ! j \<in> set content" by (simp_all add: nth_append)
    with j k(4) assms(2) show "?mem ! j \<noteq> NL \<and> ?mem ! j \<noteq> NUL" by auto
  qed
  moreover have "k < length ?mem" "?mem ! k = NL" using k(2,3) by (simp_all add: nth_append)
  ultimately have "strchr ?mem (length content div 2) NL = Inr (Some k)"
    using k(1) by (intro strchr_found) auto
  then show ?thesis using assms(1) by (simp add: parse_file_def)
qed

lemma parse_file_no_newline:
  assumes "content \<noteq> []" "NUL \<notin> set content"
    and no: "\<forall>j\<in>{length content div 2..<length content}. content ! j \<noteq> NL" and pad: "0 < pad"
  shows "parse_file file (content @ replicate pad NUL) (length content)
           = Inr (Some \<lparr>name = strdup file, mid = length content - 1, size_filep = length content, midline = 0\<rparr>)"
proof -
  let ?mem = "content @ replicate pad NUL"
  let ?n = "length content"
  have "\<forall>j. ?n div 2 \<le> j \<and> j < ?n \<longrightarrow> ?mem ! j \<noteq> NL \<and> ?mem ! j \<noteq> NUL"
  proof (intro allI impI)
    fix j assume j: "?n div 2 \<le> j \<and> j < ?n"
    then have mj: "?mem ! j = content ! j" and inset: "content ! j \<in> set content" by (simp_all add: nth_append)
    from inset assms(2) have "content ! j \<noteq> NUL" by metis
    moreover from j no have "content ! j \<noteq> NL" by simp
    ultimately show "?mem ! j \<noteq> NL \<and> ?mem ! j \<noteq> NUL" using mj by simp
  qed
  moreover have "?n < length ?mem" "?mem ! ?n = NUL" using pad by (simp_all add: nth_append)
  moreover have "NL \<noteq> NUL" by (simp add: NL_def NUL_def)
  ultimately have "strchr ?mem (?n div 2) NL = Inr None"
    by (intro strchr_none [where k = ?n]) auto
  then show ?thesis using assms(1) by (simp add: parse_file_def)
qed

lemma second_worker_nothing:
  assumes "content \<noteq> []" "NUL \<notin> set content"
    and no: "\<forall>j\<in>{length content div 2..<length content}. content ! j \<noteq> NL" and pad: "0 < pad"
    and fp: "mid fp = length content - 1" "size_filep fp = length content"
    and w0: "worker_thread prs 0 fp (content @ replicate pad NUL) = Inr (mem0, res0, fp0)"
  shows "worker_thread prs 1 fp0 mem0 = Inr (mem0, [], fp0)"
proof -
  let ?mem = "content @ replicate pad NUL"
  let ?n = "length content"
  have n: "0 < ?n" using assms(1) by simp
  from w0 obtain lc where
    run: "worker_loop prs ?mem 0 (int (mid fp) - 1) 1 [] = Inr (mem0, res0, lc)"
    and fp0: "fp0 = fp\<lparr>midline := word_of_int (lc - 1)\<rparr>"
    by (auto simp: worker_thread_def Let_def split: sum.splits)
  from worker_loop_results [OF run] have len: "length mem0 = length ?mem" by simp
  have last_in: "?n - 1 \<in> {?n div 2..<?n}" using n by auto
  with no have nl: "content ! (?n - 1) \<noteq> NL" by blast
  have nn: "content ! (?n - 1) \<noteq> NUL" using assms(2) n by (metis diff_less nth_mem zero_less_one)
  have m1: "?mem ! (?n - 1) = content ! (?n - 1)" using n by (simp add: nth_append)
  have m2: "?mem ! ?n = NUL" using pad by (simp add: nth_append)
  have nlnul: "NL \<noteq> NUL" by (simp add: NL_def NUL_def)
  have k1: "mem0 ! (?n - 1) = ?mem ! (?n - 1)"
    by (rule worker_loop_keeps [OF run]) (use m1 nl in \<open>simp only: not_False_eq_True\<close>)
  have k2: "mem0 ! ?n = ?mem ! ?n"
    by (rule worker_loop_keeps [OF run]) (use m2 nlnul in simp)
  have "\<forall>j. ?n - 1 \<le> j \<and> j < ?n \<longrightarrow> mem0 ! j \<noteq> NL \<and> mem0 ! j \<noteq> NUL"
  proof (intro allI impI)
    fix j assume "?n - 1 \<le> j \<and> j < ?n"
    then have "j = ?n - 1" by linarith
    with k1 m1 nl nn show "mem0 ! j \<noteq> NL \<and> mem0 ! j \<noteq> NUL" by simp
  qed
  moreover have "?n < length mem0" using len pad by simp
  moreover have "mem0 ! ?n = NUL" using k2 m2 by simp
  ultimately have sc: "strchr mem0 (?n - 1) NL = Inr None"
    using nlnul by (intro strchr_none [where k = ?n]) auto
  have "int (?n - 1) < int ?n" using n by simp
  then have "worker_loop prs mem0 (?n - 1) (int ?n) 1 [] = Inr (mem0, [], 1)"
    using sc by (subst worker_loop.simps) simp
  then show ?thesis using fp fp0 by (simp add: worker_thread_def)
qed

text \<open>
  Where parse\_file puts the split. The file is not empty, holds no NUL byte and is
  shorter than \<open>2^32\<close> bytes (\<^verbatim>\<open>filep.size\<close> is an \<^verbatim>\<open>unsigned int\<close>); the mapping is the file
  and the zero fill of its last page. When a newline lies at or after the midpoint
  byte, \<^verbatim>\<open>filep.mid\<close> is the offset just after the first such newline, and the second
  half is what remains. When none does and the mapping goes on after the file,
  \<^verbatim>\<open>filep.mid\<close> is the offset of the last byte of the file: the second half is that
  byte, and the second worker finds nothing in it.
\<close>

lemma split_point:
  assumes "content \<noteq> []" "NUL \<notin> set content" "length content < 2 ^ 32"
  shows "(length content div 2 \<le> k \<and> k < length content \<and> content ! k = NL \<and>
            (\<forall>j\<in>{length content div 2..<k}. content ! j \<noteq> NL) \<longrightarrow>
          parse_file file (content @ replicate pad NUL) (length content)
            = Inr (Some \<lparr>name = strdup file, mid = k + 1, size_filep = length content, midline = 0\<rparr>)
          \<and> second_half \<lparr>name = strdup file, mid = k + 1, size_filep = length content, midline = 0\<rparr>
               (content @ replicate pad NUL) = drop (k + 1) content)
       \<and> ((\<forall>j\<in>{length content div 2..<length content}. content ! j \<noteq> NL) \<and> 0 < pad \<longrightarrow>
          parse_file file (content @ replicate pad NUL) (length content)
            = Inr (Some \<lparr>name = strdup file, mid = length content - 1, size_filep = length content, midline = 0\<rparr>)
          \<and> second_half \<lparr>name = strdup file, mid = length content - 1, size_filep = length content, midline = 0\<rparr>
               (content @ replicate pad NUL) = [last content]
          \<and> (worker_thread prs 0
                \<lparr>name = strdup file, mid = length content - 1, size_filep = length content, midline = 0\<rparr>
                (content @ replicate pad NUL) = Inr (mem0, res0, fp0) \<longrightarrow>
              worker_thread prs 1 fp0 mem0 = Inr (mem0, [], fp0)))"
proof -
  let ?n = "length content"
  have n: "0 < ?n" using assms(1) by simp
  have a: "second_half \<lparr>name = strdup file, mid = k + 1, size_filep = ?n, midline = 0\<rparr>
               (content @ replicate pad NUL) = drop (k + 1) content" if "k < ?n"
    using that by (simp add: second_half_def)
  have "drop (?n - 1) content = [last content]"
    using assms(1) by (metis append_butlast_last_id append_eq_conv_conj length_butlast)
  moreover have "?n - (?n - 1) = 1" using n by linarith
  ultimately have b: "second_half \<lparr>name = strdup file, mid = ?n - 1, size_filep = ?n, midline = 0\<rparr>
               (content @ replicate pad NUL) = [last content]"
    by (simp add: second_half_def)
  have c: "parse_file file (content @ replicate pad NUL) ?n
            = Inr (Some \<lparr>name = strdup file, mid = k + 1, size_filep = ?n, midline = 0\<rparr>)"
    if "?n div 2 \<le> k \<and> k < ?n \<and> content ! k = NL \<and> (\<forall>j\<in>{?n div 2..<k}. content ! j \<noteq> NL)"
    using that by (intro parse_file_newline [OF assms(1,2)]) simp_all
  have d: "parse_file file (content @ replicate pad NUL) ?n
            = Inr (Some \<lparr>name = strdup file, mid = ?n - 1, size_filep = ?n, midline = 0\<rparr>)"
    if "(\<forall>j\<in>{?n div 2..<?n}. content ! j \<noteq> NL) \<and> 0 < pad"
    using that by (intro parse_file_no_newline [OF assms(1,2)]) simp_all
  have e: "worker_thread prs 1 fp0 mem0 = Inr (mem0, [], fp0)"
    if "(\<forall>j\<in>{?n div 2..<?n}. content ! j \<noteq> NL) \<and> 0 < pad"
      and "worker_thread prs 0
                \<lparr>name = strdup file, mid = ?n - 1, size_filep = ?n, midline = 0\<rparr>
                (content @ replicate pad NUL) = Inr (mem0, res0, fp0)"
    using that by (intro second_worker_nothing [OF assms(1,2) _ _ _ _ that(2)]) simp_all
  show ?thesis using a b c d e by blast
qed

text \<open>
  The file of the three lines \<open>a\<close>, \<open>b\<close>, \<open>c\<close> is split after its second line; the file
  \<open>a\<close>, newline, \<open>bcd\<close> has no newline from its midpoint on.
\<close>

lemma split_point_example:
  "parse_file ''f'' ([CHR ''a'', NL, CHR ''b'', NL, CHR ''c'', NL] @ replicate 2 NUL) 6
     = Inr (Some \<lparr>name = strdup ''f'', mid = 4, size_filep = 6, midline = 0\<rparr>)
   \<and> second_half \<lparr>name = strdup ''f'', mid = 4, size_filep = 6, midline = 0\<rparr>
        ([CHR ''a'', NL, CHR ''b'', NL, CHR ''c'', NL] @ replicate 2 NUL) = [CHR ''c'', NL]
   \<and> parse_file ''f'' ([CHR ''a'', NL, CHR ''b'', CHR ''c'', CHR ''d''] @ replicate 3 NUL) 5
     = Inr (Some \<lparr>name = strdup ''f'', mid = 4, size_filep = 5, midline = 0\<rparr>)
   \<and> second_half \<lparr>name = strdup ''f'', mid = 4, size_filep = 5, midline = 0\<rparr>
        ([CHR ''a'', NL, CHR ''b'', CHR ''c'', CHR ''d''] @ replicate 3 NUL) = [CHR ''d'']"
proof -
  let ?c1 = "[CHR ''a'', NL, CHR ''b'', NL, CHR ''c'', NL]"
  let ?c2 = "[CHR ''a'', NL, CHR ''b'', CHR ''c'', CHR ''d'']"
  have a1: "?c1 \<noteq> []" and a2: "?c2 \<noteq> []" by simp_all
  have b1: "NUL \<notin> set ?c1" and b2: "NUL \<notin> set ?c2" by (simp_all add: NUL_def NL_def)
  have s1: "length ?c1 < 2 ^ 32" and s2: "length ?c2 < 2 ^ 32" by simp_all
  have k: "length ?c1 div 2 \<le> 3 \<and> 3 < length ?c1 \<and> ?c1 ! 3 = NL \<and>
            (\<forall>j\<in>{length ?c1 div 2..<3}. ?c1 ! j \<noteq> NL)" by simp
  have no: "(\<forall>j\<in>{length ?c2 div 2..<length ?c2}. ?c2 ! j \<noteq> NL) \<and> (0::nat) < 3"
    by (simp add: NL_def atLeastLessThan_def atLeast_def lessThan_def nth_Cons')
  from split_point [OF a1 b1 s1, of 3 "''f''" 2] k
  have p1: "parse_file ''f'' (?c1 @ replicate 2 NUL) (length ?c1)
            = Inr (Some \<lparr>name = strdup ''f'', mid = 3 + 1, size_filep = length ?c1, midline = 0\<rparr>)
          \<and> second_half \<lparr>name = strdup ''f'', mid = 3 + 1, size_filep = length ?c1, midline = 0\<rparr>
               (?c1 @ replicate 2 NUL) = drop (3 + 1) ?c1"
    by blast
  from split_point [OF a2 b2 s2, of 0 "''f''" 3] no
  have p2: "parse_file ''f'' (?c2 @ replicate 3 NUL) (length ?c2)
            = Inr (Some \<lparr>name = strdup ''f'', mid = length ?c2 - 1, size_filep = length ?c2, midline = 0\<rparr>)
          \<and> second_half \<lparr>name = strdup ''f'', mid = length ?c2 - 1, size_filep = length ?c2, midline = 0\<rparr>
               (?c2 @ replicate 3 NUL) = [last ?c2]"
    by blast
  from p1 p2 show ?thesis by (simp add: eval_nat_numeral)
qed

text \<open>
  C5 (where a file is split, and who scans a file that cannot be split). The claim:
  when no newline lies at or after the midpoint the second half is empty and the first
  worker scans the whole file. The file of the five bytes \<open>hello\<close>, with no final
  newline, is such a file, and the pattern \<open>h\<close> (a pattern of one byte, so the parser is
  \<open>strstr_wrapper\<close>) occurs in it. parse\_file takes the branch of the comment
  \<^verbatim>\<open>short file that cannot be cut in 2\<close> and sets \<^verbatim>\<open>filep.mid\<close> to the last byte: the second
  half is the byte \<open>o\<close>, not empty. The first worker runs with \<^verbatim>\<open>end = filep.mid - 1\<close>, and
  its loop needs a newline after \<open>p\<close> to scan a line: it scans nothing, the second
  worker neither, and the store stays as it was. The same file with a final newline
  gives the match line 1.
\<close>

theorem unterminated_file_not_scanned:
  "parser_of (pre_bmh ''h'') = Strstr_wrapper
   \<and> occurs ''h'' ''hello''
   \<and> parse_file ''a.c'' (''hello'' @ [NUL]) 5
       = Inr (Some \<lparr>name = strdup ''a.c'', mid = 4, size_filep = 5, midline = 0\<rparr>)
   \<and> second_half \<lparr>name = strdup ''a.c'', mid = 4, size_filep = 5, midline = 0\<rparr>
         (''hello'' @ [NUL]) = ''o''
   \<and> worker_thread (\<lambda>text n. strstr_wrapper text ''h'' n) 0
         \<lparr>name = strdup ''a.c'', mid = 4, size_filep = 5, midline = 0\<rparr> (''hello'' @ [NUL])
       = Inr (''hello'' @ [NUL], [], \<lparr>name = strdup ''a.c'', mid = 4, size_filep = 5, midline = 0\<rparr>)
   \<and> scan_file (\<lambda>text n. strstr_wrapper text ''h'' n) init_searchstruct ''a.c''
         (''hello'' @ [NUL]) 5 = Inr init_searchstruct
   \<and> map matches (projr_list (scan_file (\<lambda>text n. strstr_wrapper text ''h'' n) init_searchstruct ''a.c''
         (''hello'' @ [NL, NUL]) 6)) = [[(1, ''hello'' @ [NUL])]]"
  by code_simp

text \<open>
  The same on a file with a line before the midpoint: in \<open>a\<close>, newline, \<open>bcd\<close> the first
  worker scans the line \<open>a\<close>, and no worker scans \<open>bcd\<close>.
\<close>

lemma unterminated_tail_not_scanned:
  "occurs ''d'' ''bcd''
   \<and> scan_file (\<lambda>text n. strstr_wrapper text ''d'' n) init_searchstruct ''a.c''
         [CHR ''a'', NL, CHR ''b'', CHR ''c'', CHR ''d'', NUL] 5 = Inr init_searchstruct
   \<and> map matches (projr_list (scan_file (\<lambda>text n. strstr_wrapper text ''a'' n) init_searchstruct ''a.c''
         [CHR ''a'', NL, CHR ''b'', CHR ''c'', CHR ''d'', NUL] 5)) = [[(1, [CHR ''a'', NUL])]]"
  by code_simp

section \<open>A subsearch with an invalid pattern\<close>

text \<open>
  C6 (a rejected subsearch leaves the parent as it was). The claim: after an invalid
  pattern the parent is the active context and its store, its cursor and its child
  pointer are unchanged. The root search below has a header and a match line, the
  cursor on the match line, and no child. The user types \<open>/\<close> and the two bytes
  backslash, parenthesis, which \<^verbatim>\<open>regcomp\<close> refuses here. The parent stays the current
  search, with its entries, cursor and index, but its child pointer is now the address
  of the rejected child: subsearch writes \<^verbatim>\<open>father->child = child\<close> before it checks
  the pattern, and returns NULL without undoing it.
\<close>

theorem rejected_subsearch_sets_child:
  "\<exists>st'. handle_key (\<lambda>p. p \<noteq> [CHR 0x5C, CHR ''('']) occurs 24
     \<lparr>heap = (\<lambda>a. None)(0 := Some (init_searchstruct
        \<lparr>entries := [\<lparr>data = [CHR ''f'', NUL], line = 0\<rparr>, \<lparr>data = [CHR ''x'', NUL], line = 1\<rparr>],
         nb_lines := 1, cursor := 1\<rparr>)),
      mainsearch = 0, current = 0\<rparr>
     (Slash [CHR 0x5C, CHR ''('', NUL] 1) = Continue st'
   \<and> current st' = 0
   \<and> map_option entries (heap st' 0)
       = Some [\<lparr>data = [CHR ''f'', NUL], line = 0\<rparr>, \<lparr>data = [CHR ''x'', NUL], line = 1\<rparr>]
   \<and> map_option cursor (heap st' 0) = Some 1
   \<and> map_option index (heap st' 0) = Some 0
   \<and> child init_searchstruct = None
   \<and> map_option child (heap st' 0) = Some (Some 1)"
  by (simp add: handle_key_def subsearch_def init_searchstruct_def c_str_def NUL_def Let_def)

section \<open>A line of the configuration file\<close>

lemma strtok_all_tokens:
  "NUL \<notin> set v \<Longrightarrow>
   \<exists>buf. strtok_all (v @ NUL # rest) cur = Inr (filter (\<lambda>t. t \<noteq> []) (fields v cur), buf)"
proof (induction v arbitrary: cur)
  case Nil
  then show ?case by simp
next
  case (Cons c cs)
  then have c: "c \<noteq> NUL" and cs: "NUL \<notin> set cs" by auto
  show ?case
  proof (cases "c = SP")
    case True
    from Cons.IH [OF cs, of "[]"] obtain buf where
      "strtok_all (cs @ NUL # rest) [] = Inr (filter (\<lambda>t. t \<noteq> []) (fields cs []), buf)" by blast
    with True c show ?thesis by (cases "cur = []") simp_all
  next
    case False
    from Cons.IH [OF cs, of "cur @ [c]"] obtain buf where
      "strtok_all (cs @ NUL # rest) (cur @ [c]) = Inr (filter (\<lambda>t. t \<noteq> []) (fields cs (cur @ [c])), buf)"
      by blast
    with False c show ?thesis by simp
  qed
qed

lemma quoted_value_of_line:
  assumes "DQ \<notin> set pre" "NUL \<notin> set pre" "DQ \<notin> set v" "NUL \<notin> set v"
  shows "quoted_value (pre @ DQ # v @ DQ # post)
           = Inr (length pre + 1, pre @ DQ # v @ NUL # post)"
proof -
  let ?ln = "pre @ DQ # v @ DQ # post"
  have dq: "DQ \<noteq> NUL" by (simp add: DQ_def NUL_def)
  have 1: "strchr ?ln 0 DQ = Inr (Some (length pre))"
  proof (rule strchr_found)
    show "\<forall>j. 0 \<le> j \<and> j < length pre \<longrightarrow> ?ln ! j \<noteq> DQ \<and> ?ln ! j \<noteq> NUL"
    proof (intro allI impI)
      fix j assume "0 \<le> j \<and> j < length pre"
      then have "?ln ! j = pre ! j" "pre ! j \<in> set pre" by (simp_all add: nth_append)
      with assms(1,2) show "?ln ! j \<noteq> DQ \<and> ?ln ! j \<noteq> NUL" by metis
    qed
  qed (simp_all add: nth_append)
  let ?e = "length pre + 1 + length v"
  have at: "?ln ! (length pre + 1 + j) = (v @ DQ # post) ! j" for j
    by (simp add: nth_append)
  have 2: "strchr ?ln (length pre + 1) DQ = Inr (Some ?e)"
  proof (rule strchr_found)
    show "?ln ! ?e = DQ" using at [of "length v"] by (simp add: nth_append)
    show "\<forall>j. length pre + 1 \<le> j \<and> j < ?e \<longrightarrow> ?ln ! j \<noteq> DQ \<and> ?ln ! j \<noteq> NUL"
    proof (intro allI impI)
      fix j assume j: "length pre + 1 \<le> j \<and> j < ?e"
      define i where "i = j - (length pre + 1)"
      have i: "j = length pre + 1 + i" "i < length v" using j unfolding i_def by linarith+
      then have "?ln ! j = v ! i" using at [of i] by (simp add: nth_append)
      moreover have "v ! i \<in> set v" using i(2) by simp
      ultimately show "?ln ! j \<noteq> DQ \<and> ?ln ! j \<noteq> NUL" using assms(3,4) by metis
    qed
  qed simp_all
  have upd: "?ln[?e := NUL] = pre @ DQ # v @ NUL # post"
    by (simp add: list_update_append)
  show ?thesis using 1 2 upd by (simp add: quoted_value_def)
qed

lemma occurs_append: "occurs pat xs \<Longrightarrow> occurs pat (xs @ zs)"
proof (induction xs)
  case Nil
  then show ?case by (cases zs) auto
next
  case (Cons x xs)
  from Cons.prems have "take (length pat) (x # xs) = pat \<or> occurs pat xs" by simp
  then show ?case
  proof
    assume t: "take (length pat) (x # xs) = pat"
    have "length (take (length pat) (x # xs)) \<le> length (x # xs)" by simp
    with t have "length pat \<le> length (x # xs)" by simp
    then have "take (length pat) ((x # xs) @ zs) = take (length pat) (x # xs)"
      by (simp only: take_append) simp
    with t show ?thesis by simp
  next
    assume "occurs pat xs"
    with Cons.IH show ?thesis by simp
  qed
qed

lemma strtok_all_buffer:
  "strtok_all xs cur = Inr (toks, buf) \<Longrightarrow> \<exists>zs. c_str xs = c_str buf @ zs"
proof (induction xs arbitrary: cur toks buf)
  case Nil
  then show ?case by simp
next
  case (Cons c cs)
  show ?case
  proof (cases "c = NUL")
    case True
    with Cons.prems show ?thesis by auto
  next
    case nn: False
    show ?thesis
    proof (cases "c = SP")
      case True
      with nn Cons.prems obtain toks' cs' where
        r: "strtok_all cs [] = Inr (toks', cs')" "buf = c # cs' \<or> buf = NUL # cs'"
        by (auto split: sum.splits if_splits)
      from Cons.IH [OF r(1)] obtain zs where "c_str cs = c_str cs' @ zs" by blast
      with r(2) nn show ?thesis by (auto simp: c_str_def)
    next
      case False
      with nn Cons.prems obtain toks' cs' where
        r: "strtok_all cs (cur @ [c]) = Inr (toks', cs')" "buf = c # cs'"
        by (auto split: sum.splits)
      from Cons.IH [OF r(1)] obtain zs where "c_str cs = c_str cs' @ zs" by blast
      with r(2) nn show ?thesis by (auto simp: c_str_def)
    qed
  qed
qed

lemma c_str_after: "NUL \<notin> set xs \<Longrightarrow> c_str (xs @ ys) = xs @ c_str ys"
  by (induction xs) (auto simp: c_str_def)

text \<open>
  A line with a quoted value that names neither the editor nor, for the list of
  extensions, \<open>files\<close> (for the list of files, \<open>extensions\<close>): the tokens of the value go
  to the end of the list, in order.
\<close>

lemma config_line_one_key:
  assumes parts: "DQ \<notin> set pre" "NUL \<notin> set pre" "DQ \<notin> set v" "NUL \<notin> set v" "NUL \<notin> set post"
    and semi: "CHR '';'' \<in> set (pre @ DQ # v @ DQ # post)"
    and ed: "\<not> occurs (c_str ptr_env) (pre @ DQ # v @ DQ # post)"
  shows "occurs ''extensions'' (pre @ DQ # v @ DQ # post) \<Longrightarrow>
         \<not> occurs ''files'' (pre @ DQ # v @ DQ # post) \<Longrightarrow>
         config_line ptr_env cfg (pre @ DQ # v @ DQ # post @ [NUL])
           = Inr (cfg\<lparr>firstext := firstext cfg @ tokens v\<rparr>)"
    and "occurs ''files'' (pre @ DQ # v @ DQ # post) \<Longrightarrow>
         \<not> occurs ''extensions'' (pre @ DQ # v @ DQ # post) \<Longrightarrow>
         config_line ptr_env cfg (pre @ DQ # v @ DQ # post @ [NUL])
           = Inr (cfg\<lparr>firstspec := firstspec cfg @ tokens v\<rparr>)"
proof -
  let ?L = "pre @ DQ # v @ DQ # post"
  let ?ln = "pre @ DQ # v @ DQ # post @ [NUL]"
  have dq: "DQ \<noteq> NUL" by (simp add: DQ_def NUL_def)
  have nonul: "NUL \<notin> set ?L" using parts dq by auto
  have "?ln = ?L @ NUL # []" by simp
  then have cs: "c_str ?ln = ?L" using c_str_line [OF nonul, of "[]"] by simp
  have semi': "CHR '';'' \<in> set (c_str ?ln)" using semi cs by simp
  have no_ed: "\<not> strstr ?ln ptr_env" using ed by (simp add: strstr_def cs)
  have key: "strstr ?ln key = occurs key ?L" if "NUL \<notin> set key" for key
    using that by (simp add: strstr_def cs c_str_no_nul)
  have k1: "NUL \<notin> set ''files''" "NUL \<notin> set ''extensions''" by (simp_all add: NUL_def)
  have qv: "quoted_value ?ln = Inr (length pre + 1, pre @ DQ # v @ NUL # post @ [NUL])"
    using quoted_value_of_line [OF parts(1-4), of "post @ [NUL]"] by simp
  from strtok_all_tokens [OF parts(4), of "post @ [NUL]" "[]"] obtain buf where
    buf: "strtok_all (v @ NUL # post @ [NUL]) [] = Inr (tokens v, buf)" by (auto simp: tokens_def)
  have vt: "value_tokens ?ln = Inr (tokens v, pre @ DQ # buf)"
    using qv buf by (simp add: value_tokens_def)
  {
    assume ext: "occurs ''extensions'' ?L" and nofiles: "\<not> occurs ''files'' ?L"
    show "config_line ptr_env cfg ?ln = Inr (cfg\<lparr>firstext := firstext cfg @ tokens v\<rparr>)"
      unfolding config_line_def using semi' no_ed key [OF k1(1)] key [OF k1(2)] ext nofiles vt
      by simp
  }
  {
    assume fl: "occurs ''files'' ?L" and noext: "\<not> occurs ''extensions'' ?L"
    from strtok_all_buffer [OF buf] obtain zs where zs: "c_str (v @ NUL # post @ [NUL]) = c_str buf @ zs"
      by blast
    have "c_str (v @ NUL # post @ [NUL]) = v" by (rule c_str_line [OF parts(4)])
    with zs have v: "v = c_str buf @ zs" by simp
    have "NUL \<notin> set (pre @ [DQ])" using parts(2) dq by auto
    from c_str_after [OF this, of buf] have c2: "c_str (pre @ DQ # buf) = pre @ DQ # c_str buf" by simp
    have "\<not> occurs ''extensions'' (pre @ DQ # c_str buf)"
    proof
      assume "occurs ''extensions'' (pre @ DQ # c_str buf)"
      from occurs_append [OF this, of "zs @ DQ # post"] have "occurs ''extensions'' ?L"
        using v by simp
      with noext show False by simp
    qed
    then have no2: "\<not> strstr (pre @ DQ # buf) ''extensions''"
      using c_str_no_nul [OF k1(2)] by (simp add: strstr_def c2)
    show "config_line ptr_env cfg ?ln = Inr (cfg\<lparr>firstspec := firstspec cfg @ tokens v\<rparr>)"
      unfolding config_line_def using semi' no_ed key [OF k1(1)] fl vt no2
      by simp
  }
qed

text \<open>
  C7 (a line with \<open>extensions\<close> gives the extension list its tokens). The three tests of
  get\_config run one after the other on the same buffer, and each cuts the buffer at
  the closing quote. With the default editor \<open>vim\<close>, the line
  \<^verbatim>\<open>extensions = ".c .h .vim";\<close> contains the name of the editor: the first test takes
  the quoted value as the command of the editor and writes a NUL over the closing
  quote; the test for \<open>extensions\<close> then finds no closing quote, and \<^verbatim>\<open>end[0] = 0\<close>
  writes through NULL. The same line with \<^verbatim>\<open>.vim\<close> left out gives the list its tokens.
\<close>

theorem config_line_with_editor_name_faults:
  "config_line ''vim'' \<lparr>editor_cmd = None, firstspec = [], firstext = []\<rparr>
     (''extensions = '' @ [DQ] @ ''.c .h .vim'' @ [DQ] @ '';'' @ [NL, NUL]) = Inl Segfault
   \<and> config_line ''vim'' \<lparr>editor_cmd = None, firstspec = [], firstext = []\<rparr>
     (''extensions = '' @ [DQ] @ ''.c .h'' @ [DQ] @ '';'' @ [NL, NUL])
     = Inr \<lparr>editor_cmd = None, firstspec = [], firstext = [''.c'', ''.h'']\<rparr>"
  by code_simp

section \<open>The two halves against one scan\<close>

lemma strchr_from_first:
  "strchr_from xs c p = Inr (Some e) \<Longrightarrow> \<forall>j<e - p. xs ! j \<noteq> c \<and> xs ! j \<noteq> NUL"
proof (induction xs arbitrary: p)
  case Nil
  then show ?case by simp
next
  case (Cons x xs)
  show ?case
  proof (cases "x = c \<or> x = NUL")
    case True
    with Cons.prems show ?thesis by (auto split: if_splits)
  next
    case False
    with Cons.prems have run: "strchr_from xs c (Suc p) = Inr (Some e)" by simp
    from Cons.IH [OF run] have ih: "\<forall>j<e - Suc p. xs ! j \<noteq> c \<and> xs ! j \<noteq> NUL" .
    show ?thesis
    proof (intro allI impI)
      fix j assume j: "j < e - p"
      show "(x # xs) ! j \<noteq> c \<and> (x # xs) ! j \<noteq> NUL"
      proof (cases j)
        case 0
        with False show ?thesis by simp
      next
        case (Suc j')
        with j have "j' < e - Suc p" by simp
        with ih Suc show ?thesis by simp
      qed
    qed
  qed
qed

lemma strchr_first:
  assumes "strchr mem p c = Inr (Some e)"
  shows "\<forall>j. p \<le> j \<and> j < e \<longrightarrow> mem ! j \<noteq> c \<and> mem ! j \<noteq> NUL"
proof (intro allI impI)
  fix j assume j: "p \<le> j \<and> j < e"
  from strchr_bounds [OF assms] have b: "e < length mem" by simp
  from assms have "strchr_from (drop p mem) c p = Inr (Some e)" by (simp add: strchr_def)
  from strchr_from_first [OF this] have "\<forall>i<e - p. drop p mem ! i \<noteq> c \<and> drop p mem ! i \<noteq> NUL" .
  moreover have "j - p < e - p" using j by linarith
  ultimately have "drop p mem ! (j - p) \<noteq> c \<and> drop p mem ! (j - p) \<noteq> NUL" by blast
  with j b show "mem ! j \<noteq> c \<and> mem ! j \<noteq> NUL" by simp
qed

lemma worker_loop_stops:
  "worker_loop prs mem p e1 lc acc = Inr (mem1, res1, lc1) \<Longrightarrow> e1 \<le> e2 \<Longrightarrow>
   \<exists>p1. p \<le> p1 \<and> worker_loop prs mem p e2 lc acc = worker_loop prs mem1 p1 e2 lc1 res1
        \<and> (\<forall>j\<ge>p1. mem1 ! j = mem ! j)
        \<and> ((int p1 < e1 \<and> strchr mem1 p1 NL = Inr None)
            \<or> (\<not> int p1 < e1 \<and>
                (p1 = p \<or> (\<exists>q. p \<le> q \<and> int q < e1 \<and> q < p1 \<and> mem ! (p1 - 1) = NL
                              \<and> (\<forall>j. q \<le> j \<and> j < p1 - 1 \<longrightarrow> mem ! j \<noteq> NL)))))"
proof (induction prs mem p e1 lc acc rule: worker_loop.induct)
  case (1 prs mem p e line_count acc)
  show ?case
  proof (cases "int p < e")
    case False
    with "1.prems"(1) have "mem1 = mem" "res1 = acc" "lc1 = line_count"
      by (simp_all add: worker_loop.simps)
    with False show ?thesis by auto
  next
    case lt: True
    show ?thesis
    proof (cases "strchr mem p NL")
      case (Inl f)
      with lt "1.prems"(1) show ?thesis by (simp add: worker_loop.simps)
    next
      case (Inr r)
      show ?thesis
      proof (cases r)
        case None
        with lt Inr "1.prems"(1) have "mem1 = mem" "res1 = acc" "lc1 = line_count"
          by (simp_all add: worker_loop.simps)
        with lt Inr None show ?thesis by auto
      next
        case (Some endline)
        define mem' where "mem' = mem[endline := NUL]"
        define acc' where "acc' = (if prs (drop p mem') (endline - p)
                          then acc @ [(copy_line (drop p mem') (endline - p), line_count)]
                          else acc)"
        have step: "worker_loop prs mem p e' line_count acc
            = worker_loop prs mem' (endline + 1) e' (line_count + 1) acc'" if "int p < e'" for e'
          using that Inr Some by (subst worker_loop.simps) (simp add: mem'_def acc'_def Let_def)
        from step [OF lt] "1.prems"(1)
        have run: "worker_loop prs mem' (endline + 1) e (line_count + 1) acc' = Inr (mem1, res1, lc1)"
          by simp
        from "1.IH" [OF lt Inr Some mem'_def acc'_def run "1.prems"(2)] obtain p1 where
          p1: "endline + 1 \<le> p1"
            "worker_loop prs mem' (endline + 1) e2 (line_count + 1) acc' = worker_loop prs mem1 p1 e2 lc1 res1"
            "\<forall>j\<ge>p1. mem1 ! j = mem' ! j"
            "(int p1 < e \<and> strchr mem1 p1 NL = Inr None)
            \<or> (\<not> int p1 < e \<and>
                (p1 = endline + 1 \<or> (\<exists>q. endline + 1 \<le> q \<and> int q < e \<and> q < p1 \<and> mem' ! (p1 - 1) = NL
                              \<and> (\<forall>j. q \<le> j \<and> j < p1 - 1 \<longrightarrow> mem' ! j \<noteq> NL))))"
          by blast
        from strchr_bounds Inr Some have b: "p \<le> endline" "endline < length mem" by blast+
        from strchr_points Inr Some have nl: "mem ! endline = NL" by blast
        have same: "mem' ! j = mem ! j" if "endline < j" for j
          using that by (simp add: mem'_def)
        have nonl: "\<forall>j. p \<le> j \<and> j < endline \<longrightarrow> mem ! j \<noteq> NL"
          using strchr_first Inr Some by blast
        have "p \<le> p1" using p1(1) b(1) by simp
        moreover have "worker_loop prs mem p e2 line_count acc = worker_loop prs mem1 p1 e2 lc1 res1"
          using step [of e2] lt "1.prems"(2) p1(2) by simp
        moreover have "\<forall>j\<ge>p1. mem1 ! j = mem ! j"
          using p1(1,3) same by simp
        moreover have "(int p1 < e \<and> strchr mem1 p1 NL = Inr None)
            \<or> (\<not> int p1 < e \<and>
                (p1 = p \<or> (\<exists>q. p \<le> q \<and> int q < e \<and> q < p1 \<and> mem ! (p1 - 1) = NL
                              \<and> (\<forall>j. q \<le> j \<and> j < p1 - 1 \<longrightarrow> mem ! j \<noteq> NL))))"
        proof -
          from p1(4) consider
            (nul) "int p1 < e" "strchr mem1 p1 NL = Inr None"
            | (here) "\<not> int p1 < e" "p1 = endline + 1"
            | (later) q where "\<not> int p1 < e" "endline + 1 \<le> q" "int q < e" "q < p1" "mem' ! (p1 - 1) = NL"
                "\<forall>j. q \<le> j \<and> j < p1 - 1 \<longrightarrow> mem' ! j \<noteq> NL"
            by blast
          then show ?thesis
          proof cases
            case nul
            then show ?thesis by simp
          next
            case here
            have "p \<le> p \<and> int p < e \<and> p < p1 \<and> mem ! (p1 - 1) = NL
                   \<and> (\<forall>j. p \<le> j \<and> j < p1 - 1 \<longrightarrow> mem ! j \<noteq> NL)"
              using lt here(2) b(1) nl nonl by simp
            with here(1) show ?thesis by blast
          next
            case later
            have "mem ! (p1 - 1) = NL" using later(2,4,5) same [of "p1 - 1"] by simp
            moreover have "\<forall>j. q \<le> j \<and> j < p1 - 1 \<longrightarrow> mem ! j \<noteq> NL"
              using later(2,6) same by simp
            moreover have "p \<le> q" using later(2) b(1) by simp
            ultimately show ?thesis using later(1,3,4) by blast
          qed
        qed
        ultimately show ?thesis by blast
      qed
    qed
  qed
qed

lemma worker_loop_shift:
  "worker_loop prs mem p e lc acc = Inr (mem', acc @ new, lc') \<Longrightarrow>
   worker_loop prs mem p e (lc + d) acc2
     = Inr (mem', acc2 @ map (\<lambda>(ln, i). (ln, i + d)) new, lc' + d)"
proof (induction prs mem p e lc acc arbitrary: new acc2 rule: worker_loop.induct)
  case (1 prs mem p e line_count acc)
  show ?case
  proof (cases "int p < e")
    case False
    with "1.prems" show ?thesis by (simp add: worker_loop.simps)
  next
    case lt: True
    show ?thesis
    proof (cases "strchr mem p NL")
      case (Inl f)
      with lt "1.prems" show ?thesis by (simp add: worker_loop.simps)
    next
      case (Inr r)
      show ?thesis
      proof (cases r)
        case None
        with lt Inr "1.prems" show ?thesis by (simp add: worker_loop.simps)
      next
        case (Some endline)
        define mem1 where "mem1 = mem[endline := NUL]"
        define hit where "hit = prs (drop p mem1) (endline - p)"
        define cp where "cp = copy_line (drop p mem1) (endline - p)"
        define acc1 where "acc1 = (if hit then acc @ [(cp, line_count)] else acc)"
        have step: "worker_loop prs mem p e lc0 a
            = worker_loop prs mem1 (endline + 1) e (lc0 + 1) (if hit then a @ [(cp, lc0)] else a)" for lc0 a
          using lt Inr Some by (subst worker_loop.simps) (simp add: mem1_def hit_def cp_def Let_def)
        from step [of line_count acc] "1.prems"
        have run: "worker_loop prs mem1 (endline + 1) e (line_count + 1) acc1 = Inr (mem', acc @ new, lc')"
          by (simp add: acc1_def)
        from worker_loop_results [OF run] obtain new1 where new1: "acc @ new = acc1 @ new1" by blast
        have acc1_eq: "acc1 = (if prs (drop p mem1) (endline - p)
                          then acc @ [(copy_line (drop p mem1) (endline - p), line_count)]
                          else acc)" by (simp add: acc1_def hit_def cp_def)
        have run1: "worker_loop prs mem1 (endline + 1) e (line_count + 1) acc1 = Inr (mem', acc1 @ new1, lc')"
          using run new1 by simp
        let ?acc2 = "if hit then acc2 @ [(cp, line_count + d)] else acc2"
        from "1.IH" [OF lt Inr Some mem1_def acc1_eq run1, of ?acc2]
        have ih: "worker_loop prs mem1 (endline + 1) e (line_count + 1 + d) ?acc2
              = Inr (mem', ?acc2 @ map (\<lambda>(ln, i). (ln, i + d)) new1, lc' + d)" .
        have new: "new = (if hit then (cp, line_count) # new1 else new1)"
          using new1 by (simp add: acc1_def split: if_splits)
        have "worker_loop prs mem p e (line_count + d) acc2
              = worker_loop prs mem1 (endline + 1) e (line_count + d + 1) ?acc2"
          by (rule step)
        also have "line_count + d + 1 = line_count + 1 + d" by simp
        finally show ?thesis using ih new by (simp split: if_splits)
      qed
    qed
  qed
qed

lemma first_worker_stops_at_split:
  assumes nonul: "NUL \<notin> set content"
    and k: "k < length content" "content ! k = NL" "0 < k" "content ! (k - 1) \<noteq> NL"
    and run: "worker_loop prs (content @ replicate pad NUL) 0 (int k) 1 [] = Inr (mem0, res0, lc0)"
    and e2: "int k \<le> e2"
  shows "worker_loop prs (content @ replicate pad NUL) 0 e2 1 []
           = worker_loop prs mem0 (k + 1) e2 lc0 res0"
proof -
  let ?mem = "content @ replicate pad NUL"
  have in_content: "?mem ! j = content ! j" if "j \<le> k" for j
    using that k(1) by (simp add: nth_append)
  from worker_loop_results [OF run] have len: "length mem0 = length ?mem" by simp
  from worker_loop_stops [OF run e2] obtain p1 where
    p1: "0 \<le> p1" "worker_loop prs ?mem 0 e2 1 [] = worker_loop prs mem0 p1 e2 lc0 res0"
        "\<forall>j\<ge>p1. mem0 ! j = ?mem ! j"
        "(int p1 < int k \<and> strchr mem0 p1 NL = Inr None)
            \<or> (\<not> int p1 < int k \<and>
                (p1 = 0 \<or> (\<exists>q. 0 \<le> q \<and> int q < int k \<and> q < p1 \<and> ?mem ! (p1 - 1) = NL
                              \<and> (\<forall>j. q \<le> j \<and> j < p1 - 1 \<longrightarrow> ?mem ! j \<noteq> NL))))"
    by (elim exE conjE) (rule that; assumption)
  have "p1 = k + 1"
  proof -
    from p1(4) consider
      (nul) "int p1 < int k" "strchr mem0 p1 NL = Inr None"
      | (start) "\<not> int p1 < int k" "p1 = 0"
      | (line) q where "\<not> int p1 < int k" "int q < int k" "q < p1" "?mem ! (p1 - 1) = NL"
          "\<forall>j. q \<le> j \<and> j < p1 - 1 \<longrightarrow> ?mem ! j \<noteq> NL"
      by blast
    then show ?thesis
    proof cases
      case nul
      define k0 where "k0 = (LEAST j. p1 \<le> j \<and> ?mem ! j = NL)"
      have ex: "p1 \<le> k \<and> ?mem ! k = NL" using nul(1) k(2) in_content [of k] by simp
      from LeastI [of "\<lambda>j. p1 \<le> j \<and> ?mem ! j = NL", OF ex]
      have k0: "p1 \<le> k0" "?mem ! k0 = NL" by (simp_all add: k0_def)
      from Least_le [of "\<lambda>j. p1 \<le> j \<and> ?mem ! j = NL", OF ex] have k0k: "k0 \<le> k" by (simp add: k0_def)
      have before: "\<forall>j. p1 \<le> j \<and> j < k0 \<longrightarrow> mem0 ! j \<noteq> NL \<and> mem0 ! j \<noteq> NUL"
      proof (intro allI impI)
        fix j assume j: "p1 \<le> j \<and> j < k0"
        then have "j < (LEAST j. p1 \<le> j \<and> ?mem ! j = NL)" by (simp add: k0_def)
        then have "\<not> (p1 \<le> j \<and> ?mem ! j = NL)" by (rule not_less_Least)
        with j have a: "?mem ! j \<noteq> NL" by simp
        have "j < length content" using j k0k k(1) by simp
        then have "content ! j \<in> set content" by simp
        with nonul have "content ! j \<noteq> NUL" by metis
        moreover have "?mem ! j = content ! j" using j k0k by (intro in_content) simp
        ultimately show "mem0 ! j \<noteq> NL \<and> mem0 ! j \<noteq> NUL" using a p1(3) j by simp
      qed
      have "k0 < length mem0" using len k0k k(1) by simp
      moreover have "mem0 ! k0 = NL" using p1(3) k0 by simp
      ultimately have "strchr mem0 p1 NL = Inr (Some k0)"
        using k0(1) before by (intro strchr_found) assumption+
      with nul(2) show ?thesis by simp
    next
      case start
      with k(3) show ?thesis by simp
    next
      case line
      have "\<not> k < p1 - 1"
      proof
        assume "k < p1 - 1"
        with line(2,5) have "?mem ! k \<noteq> NL" by simp
        with k(2) in_content [of k] show False by simp
      qed
      moreover have "p1 - 1 \<noteq> k - 1"
      proof
        assume "p1 - 1 = k - 1"
        with line(4) have "?mem ! (k - 1) = NL" by simp
        with k(4) in_content [of "k - 1"] show False by simp
      qed
      ultimately show ?thesis using line(1,3) by linarith
    qed
  qed
  with p1(2) show ?thesis by simp
qed

text \<open>
  The split is right whenever the line that ends at the split is not empty: the file
  holds no NUL byte, \<open>k\<close> is its first newline at or after the midpoint byte, and the
  byte before \<open>k\<close> is not a newline. Then the store that scan\_file builds from the
  empty store has the match lines of one scan of the whole file, in the same order and
  with the same line numbers.
\<close>

lemma split_scan_correct:
  assumes nonul: "NUL \<notin> set content"
    and k: "length content div 2 \<le> k" "k < length content" "content ! k = NL"
      "\<forall>j\<in>{length content div 2..<k}. content ! j \<noteq> NL"
    and line: "0 < k" "content ! (k - 1) \<noteq> NL"
    and bound: "length content + pad < 2 ^ 31"
    and scan: "scan_file prs init_searchstruct f (content @ replicate pad NUL) (length content) = Inr s"
  shows "single_scan prs (content @ replicate pad NUL) (length content) = Inr (matches s)"
proof -
  let ?mem = "content @ replicate pad NUL"
  let ?n = "length content"
  have ne: "content \<noteq> []" using k(2) by auto
  note pf = parse_file_newline [OF ne nonul k, of f pad]
  from scan pf obtain mem0 res0 fp0 mem1 res1 fp1 where
    w0: "worker_thread prs 0 \<lparr>name = strdup f, mid = k + 1, size_filep = ?n, midline = 0\<rparr> ?mem
           = Inr (mem0, res0, fp0)"
    and w1: "worker_thread prs 1 fp0 mem0 = Inr (mem1, res1, fp1)"
    and s: "s = save_thread init_searchstruct fp1 res0 res1"
    by (auto simp: scan_file_def split: sum.splits)
  from w0 obtain lc0 where
    run0: "worker_loop prs ?mem 0 (int k) 1 [] = Inr (mem0, res0, lc0)"
    and fp0: "fp0 = \<lparr>name = strdup f, mid = k + 1, size_filep = ?n, midline = word_of_int (lc0 - 1)\<rparr>"
    by (auto simp: worker_thread_def Let_def split: sum.splits)
  from w1 fp0 obtain lc1 where
    run1: "worker_loop prs mem0 (k + 1) (int ?n) 1 [] = Inr (mem1, res1, lc1)"
    and fp1: "fp1 = fp0"
    by (auto simp: worker_thread_def Let_def split: sum.splits)
  have "int k \<le> int ?n" using k(2) by simp
  from first_worker_stops_at_split [OF nonul k(2,3) line run0 this]
  have whole: "worker_loop prs ?mem 0 (int ?n) 1 [] = worker_loop prs mem0 (k + 1) (int ?n) lc0 res0" .
  from run1 have "worker_loop prs mem0 (k + 1) (int ?n) 1 [] = Inr (mem1, [] @ res1, lc1)" by simp
  from worker_loop_shift [OF this, of "lc0 - 1" res0]
  have "worker_loop prs mem0 (k + 1) (int ?n) lc0 res0
          = Inr (mem1, res0 @ map (\<lambda>(ln, i). (ln, i + (lc0 - 1))) res1, lc1 + (lc0 - 1))"
    by simp
  with whole have single: "single_scan prs ?mem ?n
      = Inr (map (\<lambda>(ln, i). (word_of_int i, ln)) (res0 @ map (\<lambda>(ln, i). (ln, i + (lc0 - 1))) res1))"
    by (simp add: single_scan_def)
  let ?l0 = "map (\<lambda>(ln, i). \<lparr>data = ln, line = word_of_int i\<rparr>) res0"
  let ?l1 = "map (\<lambda>(ln, i). \<lparr>data = ln, line = word_of_int i + midline fp1\<rparr>) res1"
  let ?hdr = "if res0 \<noteq> [] \<or> res1 \<noteq> [] then [\<lparr>data = name fp1, line = 0 :: 32 word\<rparr>] else []"
  have ent: "entries s = ?hdr @ ?l0 @ ?l1"
    unfolding s save_thread_entries by (simp add: init_searchstruct_def)
  have len: "length ?mem < 2 ^ 31" using bound by simp
  from scan_file_appends [OF scan len] obtain lines where
    lines: "entries s = entries init_searchstruct @ (if lines = [] then [] else \<lparr>data = strdup f, line = 0\<rparr> # lines)"
      "\<forall>e\<in>set lines. line e \<noteq> 0" by blast
  have "lines = ?l0 @ ?l1"
  proof (cases "res0 \<noteq> [] \<or> res1 \<noteq> []")
    case True
    then have "entries s \<noteq> []" using ent by simp
    with lines(1) have "lines \<noteq> []" by (auto simp: init_searchstruct_def)
    with lines(1) ent True show ?thesis by (simp add: init_searchstruct_def)
  next
    case False
    then have "entries s = []" using ent by simp
    with lines(1) have "lines = []" by (auto simp: init_searchstruct_def split: if_splits)
    with False show ?thesis by simp
  qed
  with lines(2) have nz: "\<forall>e\<in>set (?l0 @ ?l1). line e \<noteq> 0" by simp
  then have "filter (\<lambda>e. \<not> is_file_entry e) (?l0 @ ?l1) = ?l0 @ ?l1"
    by (simp add: is_file_entry_def filter_id_conv)
  moreover have "filter (\<lambda>e. \<not> is_file_entry e) ?hdr = []" by (simp add: is_file_entry_def)
  ultimately have "matches s = map (\<lambda>e. (line e, data e)) (?l0 @ ?l1)"
    unfolding matches_def ent by (simp only: filter_append append_Nil)
  also have "\<dots> = map (\<lambda>(ln, i). (word_of_int i, ln)) (res0 @ map (\<lambda>(ln, i). (ln, i + (lc0 - 1))) res1)"
    by (simp add: fp1 fp0 case_prod_unfold comp_def)
  finally show ?thesis using single by simp
qed

end
